theory Spec2Isabelle
  imports Main "HOL-Library.AList"
begin

section \<open>The service worker of sw.js: data\<close>

text \<open>
  The worker handles three events: \<^verbatim>\<open>install\<close>, \<^verbatim>\<open>activate\<close> and \<^verbatim>\<open>fetch\<close>.
  Its handlers are chains of promises; the model records, for one run of one handler, the
  operations the handler issues and the settlements it observes, in the order in which
  the promise chain of the source produces them, together with the value the event is
  answered with.

  A request is identified by its URL (the requests the pages issue are GET requests over
  http or https); \<open>hostname\<close> and \<open>pathname\<close> are the components
  \<^verbatim>\<open>new URL(event.request.url)\<close> yields. The Cache API is the key-value store it is
  for such requests: \<^verbatim>\<open>put\<close> stores the response it is given under the request,
  replacing an earlier entry, unless it refuses the response. One run is followed on
  its own, with no other handler writing to the storage meanwhile.
\<close>

record request =
  href :: string
  hostname :: string
  pathname :: string

text \<open>A response: its status, the field values of its \<^verbatim>\<open>Vary\<close> header and its
  body.\<close>

record response =
  status :: nat
  vary :: "string list"
  body :: string

text \<open>One cache generation (a \<^verbatim>\<open>Cache\<close>), and \<^verbatim>\<open>caches\<close>, the generations by name
  in the order of their creation.\<close>

type_synonym cache = "(request \<times> response) list"
type_synonym storage = "(string \<times> cache) list"

text \<open>The network, as one call of \<^verbatim>\<open>fetch\<close> sees it: \<open>None\<close> is a rejected promise.\<close>

type_synonym network = "request \<Rightarrow> response option"

definition offline :: network where
  "offline = (\<lambda>req. None)"

definition serves :: "response \<Rightarrow> network" where
  "serves r = (\<lambda>req. Some r)"

definition CACHE_NAME :: string where
  "CACHE_NAME = ''salahdaily-v1''"

definition PRECACHE_URLS :: "string list" where
  "PRECACHE_URLS =
    [''./'',
     ''./index.html'',
     ''./masjid.html'',
     ''./salahdaily_icon.png'',
     ''./favicon.ico'',
     ''./icons/icon-192.png'',
     ''./icons/icon-512.png'',
     ''./icons/icon-maskable-192.png'',
     ''./icons/icon-maskable-512.png'',
     ''./icons/apple-touch-icon.png'']"

subsection \<open>Operations and settlements\<close>

datatype event =
    CachesOpen string
  | CachesKeys
  | CachesDelete string
  | CachesMatch request
  | MatchSettled "response option"
  | Fetch request
  | FetchSettled "response option"
  | CachePut string request response
  | SkipWaiting
  | ClientsClaim

text \<open>What \<^verbatim>\<open>event.respondWith\<close> is answered with: \<open>PassThrough\<close> when the handler
  returns without calling it, \<open>Resolved (Some r)\<close> for a response, \<open>Resolved None\<close> when
  the promise resolves with \<^verbatim>\<open>undefined\<close>, \<open>Rejected\<close> when it rejects.\<close>

datatype outcome = PassThrough | Resolved "response option" | Rejected

text \<open>One run of the fetch handler: \<open>awaited\<close> holds what happens up to the moment the
  promise given to \<^verbatim>\<open>respondWith\<close> settles, \<open>detached\<close> what the handler has started
  and happens after that moment.\<close>

record run =
  awaited :: "event list"
  outcome :: outcome
  detached :: "event list"

text \<open>One run of a lifecycle handler: the promise given to \<^verbatim>\<open>event.waitUntil\<close> settles
  after \<open>steps\<close>, and \<open>completed\<close> tells whether it resolved.\<close>

record lifecycle =
  steps :: "event list"
  completed :: bool

subsection \<open>Strings\<close>

definition endsWith :: "string \<Rightarrow> string \<Rightarrow> bool" where
  "endsWith s t = (length t \<le> length s \<and> drop (length s - length t) s = t)"

definition startsWith :: "string \<Rightarrow> string \<Rightarrow> bool" where
  "startsWith s t = (take (length t) s = t)"

fun includes_str :: "string \<Rightarrow> string \<Rightarrow> bool" where
  "includes_str [] t = (t = [])"
| "includes_str (c # s) t = (startsWith (c # s) t \<or> includes_str s t)"

subsection \<open>The cache storage\<close>

definition caches_keys :: "storage \<Rightarrow> string list" where
  "caches_keys st = map fst st"

text \<open>\<^verbatim>\<open>caches.open(name)\<close> creates the generation when it does not exist.\<close>

definition caches_open :: "string \<Rightarrow> storage \<Rightarrow> storage" where
  "caches_open name st = (if name \<in> set (caches_keys st) then st else st @ [(name, [])])"

definition caches_delete :: "string \<Rightarrow> storage \<Rightarrow> storage" where
  "caches_delete name st = AList.delete name st"

text \<open>The responses \<^verbatim>\<open>cache.put\<close> accepts: it rejects, with a \<^verbatim>\<open>TypeError\<close>, a
  response of status 206 and a response whose \<^verbatim>\<open>Vary\<close> header holds \<^verbatim>\<open>*\<close>.\<close>

definition storable :: "response \<Rightarrow> bool" where
  "storable r = (status r \<noteq> 206 \<and> ''*'' \<notin> set (vary r))"

text \<open>\<^verbatim>\<open>cache.put(request, response)\<close> on the generation \<open>name\<close>. The handlers
  neither await nor catch the promise of \<^verbatim>\<open>put\<close>, so a rejected \<^verbatim>\<open>put\<close> is a
  call that stores nothing.\<close>

definition cache_put :: "string \<Rightarrow> request \<Rightarrow> response \<Rightarrow> storage \<Rightarrow> storage" where
  "cache_put name req r st =
     (if storable r then AList.map_entry name (AList.update req r) st else st)"

text \<open>\<^verbatim>\<open>caches.match(request)\<close> asks every generation in turn and answers with the
  first entry found.\<close>

fun caches_match :: "storage \<Rightarrow> request \<Rightarrow> response option" where
  "caches_match [] req = None"
| "caches_match ((name, c) # st) req =
     (case map_of c req of Some r \<Rightarrow> Some r | None \<Rightarrow> caches_match st req)"

text \<open>The entry one named generation holds for a request.\<close>

definition store_lookup :: "storage \<Rightarrow> string \<Rightarrow> request \<Rightarrow> response option" where
  "store_lookup st name req = (case map_of st name of None \<Rightarrow> None | Some c \<Rightarrow> map_of c req)"

text \<open>The effect of one operation on the storage, and of a sequence of them.\<close>

fun apply_event :: "event \<Rightarrow> storage \<Rightarrow> storage" where
  "apply_event (CachesOpen name) st = caches_open name st"
| "apply_event (CachesDelete name) st = caches_delete name st"
| "apply_event (CachePut name req r) st = cache_put name req r st"
| "apply_event CachesKeys st = st"
| "apply_event (CachesMatch req) st = st"
| "apply_event (MatchSettled c) st = st"
| "apply_event (Fetch req) st = st"
| "apply_event (FetchSettled x) st = st"
| "apply_event SkipWaiting st = st"
| "apply_event ClientsClaim st = st"

definition replay :: "event list \<Rightarrow> storage \<Rightarrow> storage" where
  "replay es st = fold apply_event es st"

text \<open>The storage once everything a run of the fetch handler started has happened.\<close>

definition final_storage :: "storage \<Rightarrow> run \<Rightarrow> storage" where
  "final_storage st r = replay (awaited r @ detached r) st"

fun is_read :: "event \<Rightarrow> bool" where
  "is_read (CachesMatch req) = True"
| "is_read CachesKeys = True"
| "is_read e = False"

fun is_write :: "event \<Rightarrow> bool" where
  "is_write (CachesOpen name) = True"
| "is_write (CachesDelete name) = True"
| "is_write (CachePut name req r) = True"
| "is_write e = False"

fun is_fetch :: "event \<Rightarrow> bool" where
  "is_fetch (Fetch req) = True"
| "is_fetch e = False"

fun is_match_settled :: "event \<Rightarrow> bool" where
  "is_match_settled (MatchSettled c) = True"
| "is_match_settled e = False"

fun is_fetch_settled :: "event \<Rightarrow> bool" where
  "is_fetch_settled (FetchSettled x) = True"
| "is_fetch_settled e = False"

text \<open>The generation an operation writes to.\<close>

fun write_target :: "event \<Rightarrow> string option" where
  "write_target (CachesOpen name) = Some name"
| "write_target (CachesDelete name) = Some name"
| "write_target (CachePut name req r) = Some name"
| "write_target e = None"

section \<open>The install handler\<close>

text \<open>
  \<^verbatim>\<open>cache.addAll(urls)\<close> is the platform's: it fetches every URL and, when every fetch
  resolved with a response it accepts and no request occurs twice, stores each
  response; otherwise it rejects and stores nothing. It accepts a response whose status
  is ok (200 to 299) and which \<^verbatim>\<open>put\<close> accepts.
\<close>

definition ok :: "response \<Rightarrow> bool" where
  "ok r = (200 \<le> status r \<and> status r \<le> 299)"

definition addable :: "response \<Rightarrow> bool" where
  "addable r = (ok r \<and> storable r)"

fun responses :: "network \<Rightarrow> request list \<Rightarrow> response list option" where
  "responses net [] = Some []"
| "responses net (q # qs) =
     (case net q of
        None \<Rightarrow> None
      | Some r \<Rightarrow> (case responses net qs of None \<Rightarrow> None | Some rs \<Rightarrow> Some (r # rs)))"

definition cache_addAll :: "network \<Rightarrow> string \<Rightarrow> request list \<Rightarrow> lifecycle" where
  "cache_addAll net name reqs =
     (case responses net reqs of
        None \<Rightarrow> \<lparr>steps = map Fetch reqs, completed = False\<rparr>
      | Some rs \<Rightarrow>
          if list_all addable rs \<and> distinct reqs
          then \<lparr>steps = map Fetch reqs @ map (\<lambda>(q, r). CachePut name q r) (zip reqs rs),
                completed = True\<rparr>
          else \<lparr>steps = map Fetch reqs, completed = False\<rparr>)"

text \<open>
  \<^verbatim>\<open>
  event.waitUntil(
    caches.open(CACHE_NAME)
      .then(cache => cache.addAll(PRECACHE_URLS))
      .then(() => self.skipWaiting()));
  \<close>
  \<open>resolve\<close> is the platform's resolution of a URL of the list against the worker's
  location.
\<close>

definition install_handler :: "(string \<Rightarrow> request) \<Rightarrow> network \<Rightarrow> lifecycle" where
  "install_handler resolve net =
     (let added = cache_addAll net CACHE_NAME (map resolve PRECACHE_URLS)
      in if completed added
         then \<lparr>steps = CachesOpen CACHE_NAME # steps added @ [SkipWaiting], completed = True\<rparr>
         else \<lparr>steps = CachesOpen CACHE_NAME # steps added, completed = False\<rparr>)"

section \<open>The activate handler\<close>

text \<open>
  \<^verbatim>\<open>
  event.waitUntil(
    caches.keys().then(keys =>
      Promise.all(keys.filter(key => key !== CACHE_NAME).map(key => caches.delete(key)))
    ).then(() => self.clients.claim()));
  \<close>
\<close>

definition activate_handler :: "storage \<Rightarrow> lifecycle" where
  "activate_handler st =
     \<lparr>steps = CachesKeys
              # map CachesDelete (filter (\<lambda>key. key \<noteq> CACHE_NAME) (caches_keys st))
              @ [ClientsClaim],
      completed = True\<rparr>"

section \<open>The fetch handler\<close>

text \<open>The handler returns without calling \<^verbatim>\<open>respondWith\<close>.\<close>

definition pass_through :: run where
  "pass_through = \<lparr>awaited = [], outcome = PassThrough, detached = []\<rparr>"

text \<open>
  \<^verbatim>\<open>
  caches.match(event.request).then(cached => {
    if (cached) return cached;
    return fetch(event.request).then(response => {
      const clone = response.clone();
      caches.open(CACHE_NAME).then(cache => cache.put(event.request, clone));
      return response;
    });
  })
  \<close>
  The callback of \<^verbatim>\<open>fetch\<close> calls \<^verbatim>\<open>caches.open\<close> and returns the response; the
  \<^verbatim>\<open>put\<close> runs when the opened cache arrives, which nothing waits for.
\<close>

definition cache_first :: "network \<Rightarrow> storage \<Rightarrow> request \<Rightarrow> run" where
  "cache_first net st req =
     (let cached = caches_match st req in
      case cached of
        Some c \<Rightarrow>
          \<lparr>awaited = [CachesMatch req, MatchSettled cached],
           outcome = Resolved (Some c),
           detached = []\<rparr>
      | None \<Rightarrow>
          (case net req of
             Some response \<Rightarrow>
               \<lparr>awaited = [CachesMatch req, MatchSettled cached, Fetch req,
                           FetchSettled (Some response), CachesOpen CACHE_NAME],
                outcome = Resolved (Some response),
                detached = [CachePut CACHE_NAME req response]\<rparr>
           | None \<Rightarrow>
               \<lparr>awaited = [CachesMatch req, MatchSettled cached, Fetch req, FetchSettled None],
                outcome = Rejected,
                detached = []\<rparr>))"

text \<open>
  \<^verbatim>\<open>
  caches.match(event.request).then(cached => {
    const fetchPromise = fetch(event.request).then(response => {
      const clone = response.clone();
      caches.open(CACHE_NAME).then(cache => cache.put(event.request, clone));
      return response;
    });
    return cached || fetchPromise;
  })
  \<close>
  With a cached response the callback returns it, and \<^verbatim>\<open>fetchPromise\<close> settles later;
  without one the answer is \<^verbatim>\<open>fetchPromise\<close> itself.
\<close>

definition swr_css :: "network \<Rightarrow> storage \<Rightarrow> request \<Rightarrow> run" where
  "swr_css net st req =
     (let cached = caches_match st req in
      case cached of
        Some c \<Rightarrow>
          \<lparr>awaited = [CachesMatch req, MatchSettled cached, Fetch req],
           outcome = Resolved (Some c),
           detached =
             (case net req of
                Some response \<Rightarrow>
                  [FetchSettled (Some response), CachesOpen CACHE_NAME,
                   CachePut CACHE_NAME req response]
              | None \<Rightarrow> [FetchSettled None])\<rparr>
      | None \<Rightarrow>
          (case net req of
             Some response \<Rightarrow>
               \<lparr>awaited = [CachesMatch req, MatchSettled cached, Fetch req,
                           FetchSettled (Some response), CachesOpen CACHE_NAME],
                outcome = Resolved (Some response),
                detached = [CachePut CACHE_NAME req response]\<rparr>
           | None \<Rightarrow>
               \<lparr>awaited = [CachesMatch req, MatchSettled cached, Fetch req, FetchSettled None],
                outcome = Rejected,
                detached = []\<rparr>))"

text \<open>
  \<^verbatim>\<open>
  fetch(event.request)
    .then(response => {
      const clone = response.clone();
      caches.open(CACHE_NAME).then(cache => cache.put(event.request, clone));
      return response;
    })
    .catch(() => caches.match(event.request))
  \<close>
\<close>

definition network_first :: "network \<Rightarrow> storage \<Rightarrow> request \<Rightarrow> run" where
  "network_first net st req =
     (case net req of
        Some response \<Rightarrow>
          \<lparr>awaited = [Fetch req, FetchSettled (Some response), CachesOpen CACHE_NAME],
           outcome = Resolved (Some response),
           detached = [CachePut CACHE_NAME req response]\<rparr>
      | None \<Rightarrow>
          (let cached = caches_match st req in
           \<lparr>awaited = [Fetch req, FetchSettled None, CachesMatch req, MatchSettled cached],
            outcome = Resolved cached,
            detached = []\<rparr>))"

text \<open>
  \<^verbatim>\<open>
  caches.match(event.request).then(cached => {
    const fetchPromise = fetch(event.request).then(response => {
      const clone = response.clone();
      caches.open(CACHE_NAME).then(cache => cache.put(event.request, clone));
      return response;
    }).catch(() => cached);
    return cached || fetchPromise;
  })
  \<close>
\<close>

definition swr_default :: "network \<Rightarrow> storage \<Rightarrow> request \<Rightarrow> run" where
  "swr_default net st req =
     (let cached = caches_match st req in
      case cached of
        Some c \<Rightarrow>
          \<lparr>awaited = [CachesMatch req, MatchSettled cached, Fetch req],
           outcome = Resolved (Some c),
           detached =
             (case net req of
                Some response \<Rightarrow>
                  [FetchSettled (Some response), CachesOpen CACHE_NAME,
                   CachePut CACHE_NAME req response]
              | None \<Rightarrow> [FetchSettled None])\<rparr>
      | None \<Rightarrow>
          (case net req of
             Some response \<Rightarrow>
               \<lparr>awaited = [CachesMatch req, MatchSettled cached, Fetch req,
                           FetchSettled (Some response), CachesOpen CACHE_NAME],
                outcome = Resolved (Some response),
                detached = [CachePut CACHE_NAME req response]\<rparr>
           | None \<Rightarrow>
               \<lparr>awaited = [CachesMatch req, MatchSettled cached, Fetch req, FetchSettled None],
                outcome = Resolved cached,
                detached = []\<rparr>))"

text \<open>The listener: the first test that holds decides the strategy.\<close>

definition fetch_handler :: "network \<Rightarrow> storage \<Rightarrow> request \<Rightarrow> run" where
  "fetch_handler net st req =
     (if hostname req = ''gc.zgo.at'' \<or> endsWith (hostname req) ''.goatcounter.com''
      then pass_through
      else if hostname req = ''fonts.gstatic.com''
      then cache_first net st req
      else if hostname req = ''fonts.googleapis.com''
      then swr_css net st req
      else if endsWith (pathname req) ''.csv'' \<or> includes_str (pathname req) ''/latest/''
      then network_first net st req
      else swr_default net st req)"

text \<open>
  What the page gets for its request, which is the platform's part: a request the
  handler did not answer goes to the network, a response given to \<^verbatim>\<open>respondWith\<close>
  is handed on, and a promise that rejects or resolves with no response is a failed
  request.
\<close>

fun page_receives :: "network \<Rightarrow> request \<Rightarrow> outcome \<Rightarrow> response option" where
  "page_receives net req PassThrough = net req"
| "page_receives net req (Resolved x) = x"
| "page_receives net req Rejected = None"

text \<open>The same request issued again and again, each time against the storage the
  previous run left and with the network as it is then.\<close>

fun serve_seq :: "network list \<Rightarrow> storage \<Rightarrow> request \<Rightarrow> outcome list" where
  "serve_seq [] st req = []"
| "serve_seq (net # nets) st req =
     (let r = fetch_handler net st req
      in outcome r # serve_seq nets (final_storage st r) req)"

subsection \<open>Sample requests and responses\<close>

definition analytics_request :: request where
  "analytics_request =
     \<lparr>href = ''https://stats.goatcounter.com/count'',
      hostname = ''stats.goatcounter.com'', pathname = ''/count''\<rparr>"

definition font_request :: request where
  "font_request =
     \<lparr>href = ''https://fonts.gstatic.com/s/amiri/v27/glyphs.csv'',
      hostname = ''fonts.gstatic.com'', pathname = ''/s/amiri/v27/glyphs.csv''\<rparr>"

definition css_request :: request where
  "css_request =
     \<lparr>href = ''https://fonts.googleapis.com/css2'',
      hostname = ''fonts.googleapis.com'', pathname = ''/css2''\<rparr>"

definition latest_request :: request where
  "latest_request =
     \<lparr>href = ''https://hasan1239.github.io/ramadan-lockscreen/latest/img.png'',
      hostname = ''hasan1239.github.io'', pathname = ''/ramadan-lockscreen/latest/img.png''\<rparr>"

definition page_request :: request where
  "page_request =
     \<lparr>href = ''https://hasan1239.github.io/ramadan-lockscreen/masjid.html'',
      hostname = ''hasan1239.github.io'', pathname = ''/ramadan-lockscreen/masjid.html''\<rparr>"

definition fresh :: response where
  "fresh = \<lparr>status = 200, vary = [], body = ''new''\<rparr>"

definition stale :: response where
  "stale = \<lparr>status = 200, vary = [], body = ''old''\<rparr>"

definition not_found :: response where
  "not_found = \<lparr>status = 404, vary = [], body = ''Not Found''\<rparr>"

definition partial_content :: response where
  "partial_content = \<lparr>status = 206, vary = [], body = ''part''\<rparr>"

definition varying :: response where
  "varying = \<lparr>status = 200, vary = [''*''], body = ''any''\<rparr>"

subsection \<open>The branch a request takes\<close>

datatype strategy = Bypass | CacheFirst | RevalidateCss | NetworkFirst | RevalidateDefault

definition classify :: "request \<Rightarrow> strategy" where
  "classify req =
     (if hostname req = ''gc.zgo.at'' \<or> endsWith (hostname req) ''.goatcounter.com''
      then Bypass
      else if hostname req = ''fonts.gstatic.com''
      then CacheFirst
      else if hostname req = ''fonts.googleapis.com''
      then RevalidateCss
      else if endsWith (pathname req) ''.csv'' \<or> includes_str (pathname req) ''/latest/''
      then NetworkFirst
      else RevalidateDefault)"

definition revalidates :: "request \<Rightarrow> bool" where
  "revalidates req = (classify req = RevalidateCss \<or> classify req = RevalidateDefault)"

text \<open>The fetch is issued only after the lookup has settled.\<close>

definition fetch_after_lookup :: "event list \<Rightarrow> bool" where
  "fetch_after_lookup es =
     (list_ex is_fetch es \<and> list_ex is_match_settled (takeWhile (\<lambda>e. \<not> is_fetch e) es))"

definition old_generation :: string where
  "old_generation = ''salahdaily-v0''"

definition site_url :: "string \<Rightarrow> request" where
  "site_url u =
     \<lparr>href = ''https://hasan1239.github.io/ramadan-lockscreen/'' @ drop 2 u,
      hostname = ''hasan1239.github.io'',
      pathname = ''/ramadan-lockscreen/'' @ drop 2 u\<rparr>"

definition only_shell :: network where
  "only_shell = (\<lambda>req. if pathname req = ''/ramadan-lockscreen/masjid.html'' then None
                        else Some fresh)"

section \<open>Facts about the storage and the strategies\<close>

lemma gstatic_not_bypass: "\<not> endsWith ''fonts.gstatic.com'' ''.goatcounter.com''"
  by (simp add: endsWith_def)

lemma fetch_handler_gstatic:
  "hostname req = ''fonts.gstatic.com'' \<Longrightarrow> fetch_handler net st req = cache_first net st req"
  by (simp add: fetch_handler_def gstatic_not_bypass)

lemma replay_Nil [simp]: "replay [] st = st"
  by (simp add: replay_def)

lemma replay_Cons [simp]: "replay (e # es) st = replay es (apply_event e st)"
  by (simp add: replay_def)

lemma replay_append: "replay (es @ fs) st = replay fs (replay es st)"
  by (simp add: replay_def)

lemma map_of_caches_open:
  "map_of (caches_open name st) name \<noteq> None"
  by (auto simp: caches_open_def caches_keys_def map_of_eq_None_iff image_iff)

lemma cache_put_refused:
  "\<not> storable r \<Longrightarrow> cache_put name req r st = st"
  by (simp add: cache_put_def)

lemma store_lookup_put:
  "storable r \<Longrightarrow> store_lookup (cache_put name req r (caches_open name st)) name req = Some r"
proof -
  assume "storable r"
  moreover obtain c where "map_of (caches_open name st) name = Some c"
    using map_of_caches_open by blast
  ultimately show ?thesis
    by (simp add: store_lookup_def cache_put_def map_of_map_entry AList.update_conv')
qed

lemma caches_match_append:
  "caches_match (st @ st') req =
     (case caches_match st req of Some r \<Rightarrow> Some r | None \<Rightarrow> caches_match st' req)"
  by (induction st req rule: caches_match.induct) (auto split: option.splits)

lemma map_entry_absent:
  "name \<notin> fst ` set st \<Longrightarrow> AList.map_entry name f st = st"
  by (induction st) auto

lemma caches_match_put_present:
  "name \<in> fst ` set st \<Longrightarrow> caches_match st req = None \<Longrightarrow>
   caches_match (AList.map_entry name (AList.update req r) st) req = Some r"
proof (induction st req rule: caches_match.induct)
  case (1 req)
  then show ?case by simp
next
  case (2 n c st req)
  then show ?case
    by (auto simp: AList.update_conv' split: option.splits)
qed

lemma map_entry_append_absent:
  "name \<notin> fst ` set st \<Longrightarrow> AList.map_entry name f (st @ st') = st @ AList.map_entry name f st'"
  by (induction st) auto

lemma caches_match_put_miss:
  "caches_match st req = None \<Longrightarrow> storable r \<Longrightarrow>
   caches_match (cache_put name req r (caches_open name st)) req = Some r"
  by (auto simp: cache_put_def caches_open_def caches_keys_def caches_match_put_present
        map_entry_append_absent caches_match_append map_entry_absent AList.update_conv')


lemma cache_first_hit:
  "caches_match st req = Some c \<Longrightarrow>
   cache_first net st req =
     \<lparr>awaited = [CachesMatch req, MatchSettled (Some c)], outcome = Resolved (Some c),
      detached = []\<rparr>"
  by (simp add: cache_first_def Let_def)

lemma cache_first_miss_up:
  "caches_match st req = None \<Longrightarrow> net req = Some resp \<Longrightarrow>
   cache_first net st req =
     \<lparr>awaited = [CachesMatch req, MatchSettled None, Fetch req, FetchSettled (Some resp),
                 CachesOpen CACHE_NAME],
      outcome = Resolved (Some resp),
      detached = [CachePut CACHE_NAME req resp]\<rparr>"
  by (simp add: cache_first_def Let_def)

lemma cache_first_miss_down:
  "caches_match st req = None \<Longrightarrow> net req = None \<Longrightarrow>
   cache_first net st req =
     \<lparr>awaited = [CachesMatch req, MatchSettled None, Fetch req, FetchSettled None],
      outcome = Rejected, detached = []\<rparr>"
  by (simp add: cache_first_def Let_def)

lemma fetch_handler_classify:
  "fetch_handler net st req =
     (case classify req of
        Bypass \<Rightarrow> pass_through
      | CacheFirst \<Rightarrow> cache_first net st req
      | RevalidateCss \<Rightarrow> swr_css net st req
      | NetworkFirst \<Rightarrow> network_first net st req
      | RevalidateDefault \<Rightarrow> swr_default net st req)"
  by (simp add: fetch_handler_def classify_def)

lemma fetch_handler_css:
  "classify req = RevalidateCss \<Longrightarrow> fetch_handler net st req = swr_css net st req"
  by (simp add: fetch_handler_classify)

lemma fetch_handler_default:
  "classify req = RevalidateDefault \<Longrightarrow> fetch_handler net st req = swr_default net st req"
  by (simp add: fetch_handler_classify)

lemma swr_css_awaited:
  "take 3 (awaited (swr_css net st req))
     = [CachesMatch req, MatchSettled (caches_match st req), Fetch req]"
  by (simp add: swr_css_def Let_def split: option.splits)

lemma swr_default_awaited:
  "take 3 (awaited (swr_default net st req))
     = [CachesMatch req, MatchSettled (caches_match st req), Fetch req]"
  by (simp add: swr_default_def Let_def split: option.splits)

lemma swr_css_hit:
  "caches_match st req = Some c \<Longrightarrow>
   swr_css net st req =
     \<lparr>awaited = [CachesMatch req, MatchSettled (Some c), Fetch req],
      outcome = Resolved (Some c),
      detached = (case net req of
                    Some response \<Rightarrow> [FetchSettled (Some response), CachesOpen CACHE_NAME,
                                      CachePut CACHE_NAME req response]
                  | None \<Rightarrow> [FetchSettled None])\<rparr>"
  by (simp add: swr_css_def Let_def)

lemma swr_default_hit:
  "caches_match st req = Some c \<Longrightarrow>
   swr_default net st req =
     \<lparr>awaited = [CachesMatch req, MatchSettled (Some c), Fetch req],
      outcome = Resolved (Some c),
      detached = (case net req of
                    Some response \<Rightarrow> [FetchSettled (Some response), CachesOpen CACHE_NAME,
                                      CachePut CACHE_NAME req response]
                  | None \<Rightarrow> [FetchSettled None])\<rparr>"
  by (simp add: swr_default_def Let_def)

lemma swr_hit:
  assumes "revalidates req" and "caches_match st req = Some c"
  shows "fetch_handler net st req =
     \<lparr>awaited = [CachesMatch req, MatchSettled (Some c), Fetch req],
      outcome = Resolved (Some c),
      detached = (case net req of
                    Some response \<Rightarrow> [FetchSettled (Some response), CachesOpen CACHE_NAME,
                                      CachePut CACHE_NAME req response]
                  | None \<Rightarrow> [FetchSettled None])\<rparr>"
  using assms
  by (auto simp: revalidates_def fetch_handler_css fetch_handler_default
        swr_css_hit swr_default_hit)

lemma fetch_handler_network_first:
  "classify req = NetworkFirst \<Longrightarrow> fetch_handler net st req = network_first net st req"
  by (simp add: fetch_handler_classify)

lemma fetch_handler_cache_first:
  "classify req = CacheFirst \<Longrightarrow> fetch_handler net st req = cache_first net st req"
  by (simp add: fetch_handler_classify)

lemma classify_network_first:
  assumes "hostname req \<noteq> ''gc.zgo.at''"
    and "\<not> endsWith (hostname req) ''.goatcounter.com''"
    and "hostname req \<noteq> ''fonts.gstatic.com''"
    and "hostname req \<noteq> ''fonts.googleapis.com''"
    and "endsWith (pathname req) ''.csv'' \<or> includes_str (pathname req) ''/latest/''"
  shows "classify req = NetworkFirst"
  using assms by (simp add: classify_def)

lemma network_first_up:
  "net req = Some resp \<Longrightarrow>
   network_first net st req =
     \<lparr>awaited = [Fetch req, FetchSettled (Some resp)] @ [CachesOpen CACHE_NAME],
      outcome = Resolved (Some resp),
      detached = [CachePut CACHE_NAME req resp]\<rparr>"
  by (simp add: network_first_def)

lemma network_first_down:
  "net req = None \<Longrightarrow>
   network_first net st req =
     \<lparr>awaited = [Fetch req, FetchSettled None, CachesMatch req,
                 MatchSettled (caches_match st req)],
      outcome = Resolved (caches_match st req),
      detached = []\<rparr>"
  by (simp add: network_first_def Let_def)

lemma swr_default_outcome_down:
  "net req = None \<Longrightarrow> outcome (swr_default net st req) = Resolved (caches_match st req)"
  by (simp add: swr_default_def Let_def split: option.splits)

lemma swr_default_not_rejected:
  "outcome (swr_default net st req) \<noteq> Rejected"
  by (simp add: swr_default_def Let_def split: option.splits)

lemma caches_match_put_single:
  "caches_keys st = [name] \<Longrightarrow> storable r \<Longrightarrow>
   caches_match (cache_put name req r (caches_open name st)) req = Some r"
  by (cases st) (auto simp: caches_keys_def caches_open_def cache_put_def AList.update_conv')

lemma final_storage_revalidated:
  "final_storage st
     \<lparr>awaited = [CachesMatch req, MatchSettled x, Fetch req], outcome = y,
      detached = [FetchSettled z, CachesOpen name, CachePut name req r]\<rparr>
   = cache_put name req r (caches_open name st)"
  by (simp add: final_storage_def)

lemma serve_seq_cached:
  "classify req = CacheFirst \<Longrightarrow> caches_match s req = Some resp \<Longrightarrow>
   set (serve_seq nets s req) \<subseteq> {Resolved (Some resp)}"
proof (induction nets)
  case Nil
  then show ?case by simp
next
  case (Cons net nets)
  have run1: "fetch_handler net s req
          = \<lparr>awaited = [CachesMatch req, MatchSettled (Some resp)],
             outcome = Resolved (Some resp), detached = []\<rparr>"
    using Cons.prems by (simp add: fetch_handler_cache_first cache_first_hit)
  have "final_storage s (fetch_handler net s req) = s"
    by (simp add: run1 final_storage_def)
  with Cons run1 show ?case
    by (simp add: Let_def)
qed

lemma fetched_in_tier:
  "classify req = NetworkFirst \<or> revalidates req \<or>
   classify req = CacheFirst \<and> caches_match st req = None \<Longrightarrow>
   Fetch req \<in> set (awaited (fetch_handler net st req))"
  by (auto simp: fetch_handler_classify revalidates_def cache_first_def swr_css_def
        network_first_def swr_default_def Let_def
        split: option.splits)

lemma put_when_settled:
  "FetchSettled (Some resp) \<in> set (awaited (fetch_handler net st req)
                                      @ detached (fetch_handler net st req)) \<Longrightarrow>
   CachePut CACHE_NAME req resp \<in> set (awaited (fetch_handler net st req)
                                        @ detached (fetch_handler net st req)) \<and>
   final_storage st (fetch_handler net st req)
     = cache_put CACHE_NAME req resp (caches_open CACHE_NAME st)"
  by (cases "classify req")
     (auto simp: fetch_handler_classify pass_through_def cache_first_def swr_css_def
        network_first_def swr_default_def Let_def final_storage_def
        split: option.splits)

lemma caches_match_open:
  "caches_match (caches_open name st) req = caches_match st req"
  by (simp add: caches_open_def caches_match_append split: option.splits)

lemma addable_storable:
  "list_all addable rs \<Longrightarrow> list_all storable rs"
  by (induction rs) (simp_all add: addable_def)

lemma settled_when_fetched:
  "Fetch req \<in> set (awaited (fetch_handler net st req)) \<Longrightarrow>
   FetchSettled (net req) \<in> set (awaited (fetch_handler net st req)
                                   @ detached (fetch_handler net st req))"
  by (cases "classify req")
     (auto simp: fetch_handler_classify pass_through_def cache_first_def swr_css_def
        network_first_def swr_default_def Let_def
        split: option.splits)

lemma writes_to_current:
  "e \<in> set (awaited (fetch_handler net st req) @ detached (fetch_handler net st req)) \<Longrightarrow>
   is_write e \<Longrightarrow> write_target e = Some CACHE_NAME"
  by (cases "classify req")
     (auto simp: fetch_handler_classify pass_through_def cache_first_def swr_css_def
        network_first_def swr_default_def Let_def
        split: option.splits)

lemma lookups_search_all:
  "MatchSettled x \<in> set (awaited (fetch_handler net st req) @ detached (fetch_handler net st req))
   \<Longrightarrow> x = caches_match st req"
  by (cases "classify req")
     (auto simp: fetch_handler_classify pass_through_def cache_first_def swr_css_def
        network_first_def swr_default_def Let_def
        split: option.splits)

lemma caches_match_generation:
  "caches_match st req = Some r \<longleftrightarrow>
   (\<exists>older name c newer. st = older @ (name, c) # newer \<and>
      caches_match older req = None \<and> map_of c req = Some r)"
proof (induction st req rule: caches_match.induct)
  case (1 req)
  then show ?case by simp
next
  case (2 n c st req)
  show ?case
  proof (cases "map_of c req")
    case None
    have "(\<exists>older name c' newer. (n, c) # st = older @ (name, c') # newer \<and>
            caches_match older req = None \<and> map_of c' req = Some r)
          \<longleftrightarrow> (\<exists>older name c' newer. st = older @ (name, c') # newer \<and>
            caches_match older req = None \<and> map_of c' req = Some r)" (is "?L \<longleftrightarrow> ?R")
    proof
      assume ?L
      then obtain older name c' newer where
        eq: "(n, c) # st = older @ (name, c') # newer"
        and miss: "caches_match older req = None" and hit: "map_of c' req = Some r"
        by blast
      from eq hit None obtain older' where "older = (n, c) # older'"
        by (cases older) auto
      with eq miss hit None show ?R
        by auto
    next
      assume ?R
      then obtain older name c' newer where
        "st = older @ (name, c') # newer" "caches_match older req = None"
        "map_of c' req = Some r"
        by blast
      with None have "(n, c) # st = ((n, c) # older) @ (name, c') # newer \<and>
           caches_match ((n, c) # older) req = None \<and> map_of c' req = Some r"
        by simp
      then show ?L by blast
    qed
    with None 2 show ?thesis by simp
  next
    case (Some r')
    have "(\<exists>older name c' newer. (n, c) # st = older @ (name, c') # newer \<and>
            caches_match older req = None \<and> map_of c' req = Some r) \<longleftrightarrow> r' = r"
    proof
      assume "\<exists>older name c' newer. (n, c) # st = older @ (name, c') # newer \<and>
            caches_match older req = None \<and> map_of c' req = Some r"
      then obtain older name c' newer where
        eq: "(n, c) # st = older @ (name, c') # newer"
        and miss: "caches_match older req = None" and hit: "map_of c' req = Some r"
        by blast
      show "r' = r"
      proof (cases older)
        case Nil
        with eq hit Some show ?thesis by simp
      next
        case (Cons a older')
        with eq miss Some show ?thesis by auto
      qed
    next
      assume "r' = r"
      with Some have "(n, c) # st = [] @ (n, c) # st \<and> caches_match [] req = None \<and>
          map_of c req = Some r"
        by simp
      then show "\<exists>older name c' newer. (n, c) # st = older @ (name, c') # newer \<and>
            caches_match older req = None \<and> map_of c' req = Some r"
        by blast
    qed
    with Some show ?thesis by auto
  qed
qed

lemma responses_Some:
  "responses net reqs = Some rs \<longleftrightarrow> map net reqs = map Some rs"
proof (induction reqs arbitrary: rs)
  case Nil
  show ?case by auto
next
  case (Cons q reqs)
  show ?case
  proof (cases "net q")
    case None
    then show ?thesis by (cases rs) auto
  next
    case r: (Some r)
    show ?thesis
    proof (cases "responses net reqs")
      case None
      with Cons.IH have "map net reqs \<noteq> map Some rs'" for rs'
        by simp
      with r None show ?thesis by (cases rs) auto
    next
      case (Some rs0)
      with Cons.IH have "map net reqs = map Some rs' \<longleftrightarrow> rs0 = rs'" for rs'
        by auto
      with r Some show ?thesis by (cases rs) auto
    qed
  qed
qed

lemma responses_None:
  "responses net reqs = None \<longleftrightarrow> (\<exists>q \<in> set reqs. net q = None)"
  by (induction reqs) (auto split: option.splits)

lemma store_lookup_cache_put:
  "name \<in> fst ` set st \<Longrightarrow> storable r0 \<Longrightarrow>
   store_lookup (cache_put name q0 r0 st) name q
     = (if q = q0 then Some r0 else store_lookup st name q)"
proof -
  assume "name \<in> fst ` set st" and acc: "storable r0"
  then obtain c where "map_of st name = Some c"
    by (metis domD dom_map_of_conv_image_fst)
  with acc show ?thesis
    by (simp add: store_lookup_def cache_put_def map_of_map_entry AList.update_conv')
qed

lemma keys_cache_put:
  "fst ` set (cache_put name q r st) = fst ` set st"
  by (simp add: cache_put_def dom_map_entry)

lemma store_lookup_puts:
  "map net reqs = map Some rs \<Longrightarrow> name \<in> fst ` set st \<Longrightarrow> list_all storable rs \<Longrightarrow>
   store_lookup (replay (map (\<lambda>(q, r). CachePut name q r) (zip reqs rs)) st) name q
     = (if q \<in> set reqs then net q else store_lookup st name q)"
proof (induction reqs arbitrary: rs st)
  case Nil
  then show ?case by simp
next
  case (Cons q0 reqs)
  then obtain r0 rs' where rs: "rs = r0 # rs'" and r0: "net q0 = Some r0"
    and rest: "map net reqs = map Some rs'"
    by (cases rs) auto
  from Cons.prems(3) rs have acc: "storable r0" and accs: "list_all storable rs'"
    by simp_all
  have "name \<in> fst ` set (cache_put name q0 r0 st)"
    using Cons.prems(2) by (simp add: keys_cache_put)
  from Cons.IH [OF rest this accs] Cons.prems(2) r0 acc show ?case
    by (auto simp: rs store_lookup_cache_put)
qed

lemma puts_listed:
  "map net reqs = map Some rs \<Longrightarrow> q \<in> set reqs \<Longrightarrow> net q = Some r \<Longrightarrow>
   CachePut name q r \<in> set (map (\<lambda>(q, r). CachePut name q r) (zip reqs rs))"
proof (induction reqs arbitrary: rs)
  case Nil
  then show ?case by simp
next
  case (Cons q0 reqs)
  then obtain r0 rs' where "rs = r0 # rs'" "net q0 = Some r0" "map net reqs = map Some rs'"
    by (cases rs) auto
  with Cons show ?case by auto
qed

lemma all_accepted:
  "map net reqs = map Some rs \<Longrightarrow> list_all P rs \<Longrightarrow> q \<in> set reqs \<Longrightarrow>
   \<exists>r. net q = Some r \<and> P r"
proof (induction reqs arbitrary: rs)
  case Nil
  then show ?case by simp
next
  case (Cons q0 reqs)
  then obtain r0 rs' where "rs = r0 # rs'" "net q0 = Some r0" "map net reqs = map Some rs'"
    by (cases rs) auto
  with Cons show ?case by auto
qed

lemma all_accepted_conv:
  "map net reqs = map Some rs \<Longrightarrow> \<forall>q \<in> set reqs. \<exists>r. net q = Some r \<and> P r \<Longrightarrow>
   list_all P rs"
proof (induction reqs arbitrary: rs)
  case Nil
  then show ?case by simp
next
  case (Cons q0 reqs)
  then obtain r0 rs' where "rs = r0 # rs'" "net q0 = Some r0" "map net reqs = map Some rs'"
    by (cases rs) auto
  with Cons show ?case by auto
qed

lemma replay_fetches: "replay (map Fetch reqs) st = st"
  by (induction reqs) simp_all

lemma caches_open_keys: "name \<in> fst ` set (caches_open name st)"
  by (auto simp: caches_open_def caches_keys_def)

lemma cache_addAll_completed:
  "completed (cache_addAll net name reqs) \<Longrightarrow>
   \<exists>rs. map net reqs = map Some rs \<and> list_all addable rs \<and> distinct reqs \<and>
        steps (cache_addAll net name reqs)
          = map Fetch reqs @ map (\<lambda>(q, r). CachePut name q r) (zip reqs rs)"
proof -
  assume "completed (cache_addAll net name reqs)"
  then obtain rs where "responses net reqs = Some rs" and "list_all addable rs"
    and "distinct reqs"
    and "steps (cache_addAll net name reqs)
          = map Fetch reqs @ map (\<lambda>(q, r). CachePut name q r) (zip reqs rs)"
    by (auto simp: cache_addAll_def split: option.splits if_splits)
  moreover from this have "map net reqs = map Some rs"
    by (simp only: responses_Some)
  ultimately show ?thesis
    by blast
qed

lemma cache_addAll_failed:
  "\<not> completed (cache_addAll net name reqs) \<Longrightarrow>
   steps (cache_addAll net name reqs) = map Fetch reqs"
  by (auto simp: cache_addAll_def split: option.splits if_splits)

lemma install_handler_completed:
  "completed (install_handler resolve net)
     = completed (cache_addAll net CACHE_NAME (map resolve PRECACHE_URLS))"
  by (simp add: install_handler_def Let_def)

lemma install_completed:
  assumes "completed (install_handler resolve net)"
  shows "\<exists>rs. map net (map resolve PRECACHE_URLS) = map Some rs \<and> list_all addable rs \<and>
           distinct (map resolve PRECACHE_URLS) \<and>
           steps (install_handler resolve net)
           = CachesOpen CACHE_NAME # map Fetch (map resolve PRECACHE_URLS)
             @ map (\<lambda>(q, r). CachePut CACHE_NAME q r) (zip (map resolve PRECACHE_URLS) rs)
             @ [SkipWaiting]"
proof -
  from assms have c: "completed (cache_addAll net CACHE_NAME (map resolve PRECACHE_URLS))"
    by (simp add: install_handler_completed)
  from cache_addAll_completed [OF c] obtain rs where
    "map net (map resolve PRECACHE_URLS) = map Some rs" "list_all addable rs"
    "distinct (map resolve PRECACHE_URLS)"
    "steps (cache_addAll net CACHE_NAME (map resolve PRECACHE_URLS))
       = map Fetch (map resolve PRECACHE_URLS)
         @ map (\<lambda>(q, r). CachePut CACHE_NAME q r) (zip (map resolve PRECACHE_URLS) rs)"
    by blast
  moreover have "steps (install_handler resolve net)
      = CachesOpen CACHE_NAME # steps (cache_addAll net CACHE_NAME (map resolve PRECACHE_URLS))
        @ [SkipWaiting]"
    using c by (simp add: install_handler_def Let_def)
  ultimately show ?thesis
    by (simp del: map_map)
qed

lemma install_failed:
  assumes "\<not> completed (install_handler resolve net)"
  shows "steps (install_handler resolve net)
           = CachesOpen CACHE_NAME # map Fetch (map resolve PRECACHE_URLS)"
proof -
  from assms have c: "\<not> completed (cache_addAll net CACHE_NAME (map resolve PRECACHE_URLS))"
    by (simp add: install_handler_completed)
  then have "steps (install_handler resolve net)
      = CachesOpen CACHE_NAME # steps (cache_addAll net CACHE_NAME (map resolve PRECACHE_URLS))"
    by (simp add: install_handler_def Let_def)
  with cache_addAll_failed [OF c] show ?thesis
    by simp
qed

lemma replay_deletes:
  "replay (map CachesDelete ks) st = filter (\<lambda>p. fst p \<notin> set ks) st"
proof (induction ks arbitrary: st)
  case Nil
  then show ?case by simp
next
  case (Cons k ks)
  have "replay (map CachesDelete (k # ks)) st
          = filter (\<lambda>p. fst p \<notin> set ks) (filter (\<lambda>p. k \<noteq> fst p) st)"
    by (simp add: Cons.IH caches_delete_def AList.delete_eq case_prod_unfold)
  also have "\<dots> = filter (\<lambda>p. fst p \<notin> set (k # ks)) st"
    by (induction st) auto
  finally show ?case .
qed

lemma filter_other_keys:
  "filter (\<lambda>p. fst p \<notin> set (filter (\<lambda>key. key \<noteq> name) (map fst st))) st
     = filter (\<lambda>p. fst p = name) st"
  by (rule filter_cong) auto

lemma at_most_one_of_name:
  "distinct (map fst st) \<Longrightarrow> length (filter (\<lambda>p. fst p = name) st) \<le> 1"
proof (induction st)
  case Nil
  then show ?case by simp
next
  case (Cons p st)
  show ?case
  proof (cases "fst p = name")
    case True
    with Cons.prems have "name \<notin> fst ` set st"
      by simp
    then have "filter (\<lambda>p. fst p = name) st = []"
      by (auto simp: filter_empty_conv)
    with True show ?thesis by simp
  next
    case False
    with Cons show ?thesis by simp
  qed
qed

lemma activate_storage:
  "replay (steps (activate_handler st)) st = filter (\<lambda>p. fst p = CACHE_NAME) st"
  by (simp only: activate_handler_def lifecycle.simps replay_Cons replay_append apply_event.simps
        replay_Nil replay_deletes caches_keys_def filter_other_keys)

section \<open>The claims\<close>

text \<open>
  C1, as the code has it. In both stale-while-revalidate strategies the handler issues
  the cache lookup first and calls \<^verbatim>\<open>fetch\<close> in the callback of the lookup: the
  fetch is issued for every request, found in a cache or not, and only once the result
  of the lookup is there.
\<close>

theorem revalidate_fetch_order:
  assumes "revalidates req"
  shows "take 3 (awaited (fetch_handler net st req))
           = [CachesMatch req, MatchSettled (caches_match st req), Fetch req] \<and>
         fetch_after_lookup (awaited (fetch_handler net st req))"
proof (intro conjI)
  show first: "take 3 (awaited (fetch_handler net st req))
           = [CachesMatch req, MatchSettled (caches_match st req), Fetch req]"
    using assms
    by (auto simp: revalidates_def fetch_handler_css fetch_handler_default
          swr_css_awaited swr_default_awaited)
  then obtain rest where "awaited (fetch_handler net st req)
      = [CachesMatch req, MatchSettled (caches_match st req), Fetch req] @ rest"
    by (metis append_take_drop_id)
  then show "fetch_after_lookup (awaited (fetch_handler net st req))"
    by (simp add: fetch_after_lookup_def)
qed

theorem revalidate_fetch_order_witness:
  "revalidates page_request \<and>
   take 3 (awaited (fetch_handler (serves fresh) [(CACHE_NAME, [(page_request, stale)])]
                      page_request))
     = [CachesMatch page_request, MatchSettled (Some stale), Fetch page_request] \<and>
   fetch_after_lookup
     (awaited (fetch_handler (serves fresh) [(CACHE_NAME, [(page_request, stale)])]
                 page_request))"
proof -
  have h: "revalidates page_request"
    by (simp add: revalidates_def classify_def page_request_def endsWith_def startsWith_def)
  have m: "caches_match [(CACHE_NAME, [(page_request, stale)])] page_request = Some stale"
    by simp
  from revalidate_fetch_order [OF h, of "serves fresh" "[(CACHE_NAME, [(page_request, stale)])]"]
       h m
  show ?thesis by simp
qed

text \<open>
  C1 as stated (the fetch is started without waiting for the lookup to settle) fails in
  both strategies: the fetch follows the settlement of the lookup.
\<close>

theorem parallel_initiation_counterexample:
  "revalidates css_request \<and> revalidates page_request \<and>
   fetch_after_lookup (awaited (fetch_handler offline [] css_request)) \<and>
   fetch_after_lookup (awaited (fetch_handler offline [] page_request))"
  by (simp add: revalidates_def classify_def fetch_handler_def css_request_def page_request_def
        endsWith_def startsWith_def swr_css_def swr_default_def offline_def
        fetch_after_lookup_def)

text \<open>
  C2, as the code has it. In the default stale-while-revalidate strategy a fetch that
  rejects is swallowed: the answer is the cached response, or nothing, and never a
  rejected promise. In the cache-first and the stylesheet strategies a request found in
  a cache is answered with the cached response whatever the network does. In the
  cache-first strategy a request found in no cache whose fetch rejects is answered with
  a rejected promise.
\<close>

theorem failed_fetch_swallowed:
  "(classify req = RevalidateDefault \<longrightarrow>
      outcome (fetch_handler net st req) \<noteq> Rejected \<and>
      (net req = None \<longrightarrow> outcome (fetch_handler net st req) = Resolved (caches_match st req)))
   \<and>
   (\<forall>c. (classify req = CacheFirst \<or> classify req = RevalidateCss) \<and>
         caches_match st req = Some c \<longrightarrow>
      outcome (fetch_handler net st req) = Resolved (Some c))
   \<and>
   (classify req = CacheFirst \<and> caches_match st req = None \<and> net req = None \<longrightarrow>
      outcome (fetch_handler net st req) = Rejected)"
proof (intro conjI allI impI)
  assume d: "classify req = RevalidateDefault"
  show "outcome (fetch_handler net st req) \<noteq> Rejected"
    by (simp add: fetch_handler_default [OF d] swr_default_not_rejected)
  assume "net req = None"
  then show "outcome (fetch_handler net st req) = Resolved (caches_match st req)"
    by (simp add: fetch_handler_default [OF d] swr_default_outcome_down)
next
  fix c
  assume "(classify req = CacheFirst \<or> classify req = RevalidateCss) \<and>
          caches_match st req = Some c"
  then show "outcome (fetch_handler net st req) = Resolved (Some c)"
    by (auto simp: fetch_handler_cache_first fetch_handler_css cache_first_hit swr_css_hit)
next
  assume "classify req = CacheFirst \<and> caches_match st req = None \<and> net req = None"
  then show "outcome (fetch_handler net st req) = Rejected"
    by (simp add: fetch_handler_cache_first cache_first_miss_down)
qed

theorem failed_fetch_swallowed_witness:
  "classify page_request = RevalidateDefault \<and> offline page_request = None \<and>
   outcome (fetch_handler offline [] page_request) = Resolved None \<and>
   outcome (fetch_handler offline [(CACHE_NAME, [(page_request, stale)])] page_request)
     = Resolved (Some stale) \<and>
   classify css_request = RevalidateCss \<and>
   outcome (fetch_handler offline [(CACHE_NAME, [(css_request, stale)])] css_request)
     = Resolved (Some stale) \<and>
   classify font_request = CacheFirst \<and>
   outcome (fetch_handler offline [] font_request) = Rejected"
proof -
  have p: "classify page_request = RevalidateDefault"
    by (simp add: classify_def page_request_def endsWith_def startsWith_def)
  have c: "classify css_request = RevalidateCss"
    by (simp add: classify_def css_request_def endsWith_def)
  have f: "classify font_request = CacheFirst"
    by (simp add: classify_def font_request_def endsWith_def)
  have m: "caches_match [(CACHE_NAME, [(css_request, stale)])] css_request = Some stale"
    by simp
  from failed_fetch_swallowed [of page_request offline "[]"]
       failed_fetch_swallowed [of page_request offline "[(CACHE_NAME, [(page_request, stale)])]"]
       failed_fetch_swallowed [of css_request offline "[(CACHE_NAME, [(css_request, stale)])]"]
       failed_fetch_swallowed [of font_request offline "[]"]
       p c f m
  show ?thesis by (simp add: offline_def)
qed

text \<open>
  C2 as stated (never a rejected result, even with no cached entry) fails in the
  cache-first strategy: with nothing cached and the network down, the promise given to
  \<^verbatim>\<open>respondWith\<close> rejects.
\<close>

theorem failed_fetch_counterexample:
  "classify font_request = CacheFirst \<and>
   offline font_request = None \<and>
   caches_match [] font_request = None \<and>
   outcome (fetch_handler offline [] font_request) = Rejected"
  by (simp add: classify_def fetch_handler_def font_request_def endsWith_def
        cache_first_def offline_def Let_def)

text \<open>
  C3. A request whose hostname is \<^verbatim>\<open>gc.zgo.at\<close> or ends with \<^verbatim>\<open>.goatcounter.com\<close>
  makes the handler issue no operation at all: no cache read, no cache write, the
  storage is unchanged, \<^verbatim>\<open>respondWith\<close> is not called, and the page receives what
  the network gives, a failure included.
\<close>

theorem analytics_bypass:
  assumes "hostname req = ''gc.zgo.at'' \<or> endsWith (hostname req) ''.goatcounter.com''"
  shows "awaited (fetch_handler net st req) = [] \<and>
         detached (fetch_handler net st req) = [] \<and>
         \<not> list_ex is_read (awaited (fetch_handler net st req)
                              @ detached (fetch_handler net st req)) \<and>
         \<not> list_ex is_write (awaited (fetch_handler net st req)
                               @ detached (fetch_handler net st req)) \<and>
         final_storage st (fetch_handler net st req) = st \<and>
         outcome (fetch_handler net st req) = PassThrough \<and>
         page_receives net req (outcome (fetch_handler net st req)) = net req"
proof -
  from assms have "fetch_handler net st req = pass_through"
    by (simp add: fetch_handler_def)
  then show ?thesis
    by (simp add: pass_through_def final_storage_def)
qed

theorem analytics_bypass_witness:
  "endsWith (hostname analytics_request) ''.goatcounter.com'' \<and>
   awaited (fetch_handler offline [(CACHE_NAME, [])] analytics_request) = [] \<and>
   final_storage [(CACHE_NAME, [])] (fetch_handler offline [(CACHE_NAME, [])] analytics_request)
     = [(CACHE_NAME, [])] \<and>
   page_receives offline analytics_request
     (outcome (fetch_handler offline [(CACHE_NAME, [])] analytics_request)) = None"
proof -
  have h: "endsWith (hostname analytics_request) ''.goatcounter.com''"
    by (simp add: analytics_request_def endsWith_def)
  then have "hostname analytics_request = ''gc.zgo.at'' \<or>
             endsWith (hostname analytics_request) ''.goatcounter.com''" ..
  from analytics_bypass [OF this, of offline "[(CACHE_NAME, [])]"] h
  show ?thesis by (simp add: offline_def)
qed

text \<open>
  C4, as the code has it. A request whose path ends with \<^verbatim>\<open>.csv\<close> or contains
  \<^verbatim>\<open>/latest/\<close>, and whose hostname is none of those the three earlier tests of the
  listener take, is fetched first. When the fetch resolves, the response is the answer
  and a copy of it is put for the request in the generation \<open>CACHE_NAME\<close>, where it
  is stored unless the cache refuses the response (status 206, or a \<^verbatim>\<open>Vary\<close> header
  of \<^verbatim>\<open>*\<close>); a refused copy leaves nothing stored. When the fetch rejects, the answer
  is what \<^verbatim>\<open>caches.match\<close> finds for the request, and with no entry the promise
  resolves with no response, which the page sees as a failed request; the storage is
  left as it was.
\<close>

theorem network_first_fallback:
  assumes "hostname req \<noteq> ''gc.zgo.at''"
    and "\<not> endsWith (hostname req) ''.goatcounter.com''"
    and "hostname req \<noteq> ''fonts.gstatic.com''"
    and "hostname req \<noteq> ''fonts.googleapis.com''"
    and "endsWith (pathname req) ''.csv'' \<or> includes_str (pathname req) ''/latest/''"
  shows "hd (awaited (fetch_handler net st req)) = Fetch req \<and>
         (\<forall>resp. net req = Some resp \<longrightarrow>
            outcome (fetch_handler net st req) = Resolved (Some resp) \<and>
            CachePut CACHE_NAME req resp \<in> set (detached (fetch_handler net st req)) \<and>
            (storable resp \<longrightarrow>
               store_lookup (final_storage st (fetch_handler net st req)) CACHE_NAME req
                 = Some resp) \<and>
            (\<not> storable resp \<longrightarrow>
               final_storage st (fetch_handler net st req) = caches_open CACHE_NAME st)) \<and>
         (net req = None \<longrightarrow>
            outcome (fetch_handler net st req) = Resolved (caches_match st req) \<and>
            page_receives net req (outcome (fetch_handler net st req)) = caches_match st req \<and>
            final_storage st (fetch_handler net st req) = st)"
proof -
  have tier: "fetch_handler net st req = network_first net st req"
    using assms by (simp add: classify_network_first fetch_handler_network_first)
  show ?thesis
  proof (cases "net req")
    case None
    show ?thesis
      by (simp add: tier None network_first_down [where net = net, OF None] final_storage_def)
  next
    case (Some resp)
    have fin: "final_storage st (network_first net st req)
                 = cache_put CACHE_NAME req resp (caches_open CACHE_NAME st)"
      by (simp add: network_first_up [where net = net, OF Some] final_storage_def)
    have "storable resp \<Longrightarrow>
          store_lookup (final_storage st (network_first net st req)) CACHE_NAME req = Some resp"
      by (simp add: fin store_lookup_put)
    moreover have "\<not> storable resp \<Longrightarrow>
          final_storage st (network_first net st req) = caches_open CACHE_NAME st"
      by (simp add: fin cache_put_refused)
    moreover have "outcome (network_first net st req) = Resolved (Some resp)"
      "CachePut CACHE_NAME req resp \<in> set (detached (network_first net st req))"
      "hd (awaited (network_first net st req)) = Fetch req"
      by (simp_all add: network_first_up [where net = net, OF Some])
    ultimately show ?thesis
      by (simp add: tier Some)
  qed
qed

theorem network_first_fallback_witness:
  "hostname latest_request \<noteq> ''gc.zgo.at'' \<and>
   \<not> endsWith (hostname latest_request) ''.goatcounter.com'' \<and>
   hostname latest_request \<noteq> ''fonts.gstatic.com'' \<and>
   hostname latest_request \<noteq> ''fonts.googleapis.com'' \<and>
   includes_str (pathname latest_request) ''/latest/'' \<and>
   outcome (fetch_handler offline [(CACHE_NAME, [(latest_request, stale)])] latest_request)
     = Resolved (Some stale) \<and>
   outcome (fetch_handler offline [(CACHE_NAME, [])] latest_request) = Resolved None \<and>
   page_receives offline latest_request
     (outcome (fetch_handler offline [(CACHE_NAME, [])] latest_request)) = None \<and>
   storable fresh \<and>
   outcome (fetch_handler (serves fresh) [(CACHE_NAME, [(latest_request, stale)])]
              latest_request) = Resolved (Some fresh) \<and>
   store_lookup
     (final_storage [(CACHE_NAME, [(latest_request, stale)])]
        (fetch_handler (serves fresh) [(CACHE_NAME, [(latest_request, stale)])] latest_request))
     CACHE_NAME latest_request = Some fresh \<and>
   \<not> storable partial_content \<and>
   final_storage [(CACHE_NAME, [(latest_request, stale)])]
     (fetch_handler (serves partial_content) [(CACHE_NAME, [(latest_request, stale)])]
        latest_request)
     = [(CACHE_NAME, [(latest_request, stale)])]"
proof -
  have h1: "hostname latest_request \<noteq> ''gc.zgo.at''"
    and h2: "\<not> endsWith (hostname latest_request) ''.goatcounter.com''"
    and h3: "hostname latest_request \<noteq> ''fonts.gstatic.com''"
    and h4: "hostname latest_request \<noteq> ''fonts.googleapis.com''"
    by (simp_all add: latest_request_def endsWith_def)
  have h5: "includes_str (pathname latest_request) ''/latest/''"
    by (simp add: latest_request_def startsWith_def)
  then have h5': "endsWith (pathname latest_request) ''.csv'' \<or>
                  includes_str (pathname latest_request) ''/latest/''" ..
  have s: "storable fresh" "\<not> storable partial_content"
    by (simp_all add: storable_def fresh_def partial_content_def)
  note nf = network_first_fallback [OF h1 h2 h3 h4 h5']
  from nf [of offline "[(CACHE_NAME, [(latest_request, stale)])]"]
       nf [of offline "[(CACHE_NAME, [])]"]
       nf [of "serves fresh" "[(CACHE_NAME, [(latest_request, stale)])]"]
       nf [of "serves partial_content" "[(CACHE_NAME, [(latest_request, stale)])]"]
       h1 h2 h3 h4 h5 s
  show ?thesis by (simp add: offline_def serves_def caches_open_def caches_keys_def)
qed

text \<open>
  C4 as stated fails in two ways. For every request with such a path: a \<^verbatim>\<open>.csv\<close>
  path on \<^verbatim>\<open>fonts.gstatic.com\<close> that is cached is answered from the cache, with no
  fetch, although the network has a newer response. A copy of every fetched response is
  stored: a response of status 206 is returned, and nothing is stored for the request.
\<close>

theorem network_first_counterexample:
  "endsWith (pathname font_request) ''.csv'' \<and>
   serves fresh font_request = Some fresh \<and>
   \<not> list_ex is_fetch
       (awaited (fetch_handler (serves fresh) [(CACHE_NAME, [(font_request, stale)])]
                   font_request)) \<and>
   outcome (fetch_handler (serves fresh) [(CACHE_NAME, [(font_request, stale)])] font_request)
     = Resolved (Some stale) \<and>
   stale \<noteq> fresh \<and>
   classify latest_request = NetworkFirst \<and>
   status partial_content = 206 \<and>
   outcome (fetch_handler (serves partial_content) [] latest_request)
     = Resolved (Some partial_content) \<and>
   store_lookup (final_storage [] (fetch_handler (serves partial_content) [] latest_request))
     CACHE_NAME latest_request = None"
  by (simp add: fetch_handler_def classify_def font_request_def latest_request_def endsWith_def
        startsWith_def cache_first_def network_first_def serves_def stale_def fresh_def
        partial_content_def Let_def final_storage_def caches_open_def caches_keys_def
        cache_put_def storable_def store_lookup_def)

text \<open>
  C5. When the installation completes, every URL of the precache list has been fetched
  and its response stored in the generation \<open>CACHE_NAME\<close> before the last step,
  \<^verbatim>\<open>skipWaiting\<close>, so that the storage then holds an entry for each of them. When
  the fetch of one URL of the list fails, the installation fails, and a failed
  installation does not reach \<^verbatim>\<open>skipWaiting\<close> and stores nothing (the generation has
  only been opened). The installation completes exactly when the URLs resolve to
  distinct requests and every fetch resolves with a response \<^verbatim>\<open>addAll\<close> accepts.
\<close>

theorem install_all_or_nothing:
  "(completed (install_handler resolve net) \<longrightarrow>
      last (steps (install_handler resolve net)) = SkipWaiting \<and>
      (\<forall>u \<in> set PRECACHE_URLS. \<exists>r.
         net (resolve u) = Some r \<and>
         Fetch (resolve u) \<in> set (butlast (steps (install_handler resolve net))) \<and>
         CachePut CACHE_NAME (resolve u) r
           \<in> set (butlast (steps (install_handler resolve net))) \<and>
         store_lookup (replay (steps (install_handler resolve net)) st) CACHE_NAME (resolve u)
           = Some r))
   \<and>
   ((\<exists>u \<in> set PRECACHE_URLS. net (resolve u) = None) \<longrightarrow>
      \<not> completed (install_handler resolve net))
   \<and>
   (\<not> completed (install_handler resolve net) \<longrightarrow>
      SkipWaiting \<notin> set (steps (install_handler resolve net)) \<and>
      replay (steps (install_handler resolve net)) st = caches_open CACHE_NAME st)
   \<and>
   (completed (install_handler resolve net) \<longleftrightarrow>
      distinct (map resolve PRECACHE_URLS) \<and>
      (\<forall>u \<in> set PRECACHE_URLS. \<exists>r. net (resolve u) = Some r \<and> addable r))"
proof (intro conjI impI)
  assume comp: "completed (install_handler resolve net)"
  from install_completed [OF this]
  obtain rs where rs: "map net (map resolve PRECACHE_URLS) = map Some rs"
    and oks: "list_all addable rs"
    and sts: "steps (install_handler resolve net)
           = CachesOpen CACHE_NAME # map Fetch (map resolve PRECACHE_URLS)
             @ map (\<lambda>(q, r). CachePut CACHE_NAME q r) (zip (map resolve PRECACHE_URLS) rs)
             @ [SkipWaiting]"
    by blast
  show "last (steps (install_handler resolve net)) = SkipWaiting"
    by (simp add: sts)
  have bl: "butlast (steps (install_handler resolve net))
           = CachesOpen CACHE_NAME # map Fetch (map resolve PRECACHE_URLS)
             @ map (\<lambda>(q, r). CachePut CACHE_NAME q r) (zip (map resolve PRECACHE_URLS) rs)"
    by (simp add: sts butlast_append del: map_map)
  have fin: "replay (steps (install_handler resolve net)) st
           = replay (map (\<lambda>(q, r). CachePut CACHE_NAME q r) (zip (map resolve PRECACHE_URLS) rs))
               (caches_open CACHE_NAME st)"
    by (simp only: sts replay_Cons replay_append apply_event.simps replay_fetches replay_Nil)
  show "\<forall>u \<in> set PRECACHE_URLS. \<exists>r.
         net (resolve u) = Some r \<and>
         Fetch (resolve u) \<in> set (butlast (steps (install_handler resolve net))) \<and>
         CachePut CACHE_NAME (resolve u) r
           \<in> set (butlast (steps (install_handler resolve net))) \<and>
         store_lookup (replay (steps (install_handler resolve net)) st) CACHE_NAME (resolve u)
           = Some r"
  proof
    fix u assume u: "u \<in> set PRECACHE_URLS"
    then have q: "resolve u \<in> set (map resolve PRECACHE_URLS)"
      by simp
    from all_accepted [OF rs oks q] obtain r where r: "net (resolve u) = Some r"
      by blast
    have "CachePut CACHE_NAME (resolve u) r
            \<in> set (map (\<lambda>(q, r). CachePut CACHE_NAME q r) (zip (map resolve PRECACHE_URLS) rs))"
      using rs q r by (rule puts_listed)
    then have put: "CachePut CACHE_NAME (resolve u) r
            \<in> set (butlast (steps (install_handler resolve net)))"
      by (simp only: bl set_append set_simps) blast
    have fetch: "Fetch (resolve u) \<in> set (butlast (steps (install_handler resolve net)))"
      using u by (simp add: bl)
    have "store_lookup (replay (steps (install_handler resolve net)) st) CACHE_NAME (resolve u)
            = Some r"
      using q r
      by (simp add: fin store_lookup_puts [OF rs caches_open_keys addable_storable [OF oks]])
    with r put fetch show "\<exists>r.
         net (resolve u) = Some r \<and>
         Fetch (resolve u) \<in> set (butlast (steps (install_handler resolve net))) \<and>
         CachePut CACHE_NAME (resolve u) r
           \<in> set (butlast (steps (install_handler resolve net))) \<and>
         store_lookup (replay (steps (install_handler resolve net)) st) CACHE_NAME (resolve u)
           = Some r"
      by blast
  qed
next
  assume "\<exists>u \<in> set PRECACHE_URLS. net (resolve u) = None"
  then have "responses net (map resolve PRECACHE_URLS) = None"
    by (simp add: responses_None)
  then show "\<not> completed (install_handler resolve net)"
    by (simp add: install_handler_def cache_addAll_def)
next
  assume nc: "\<not> completed (install_handler resolve net)"
  show "SkipWaiting \<notin> set (steps (install_handler resolve net))"
    by (auto simp: install_failed [OF nc])
  show "replay (steps (install_handler resolve net)) st = caches_open CACHE_NAME st"
    by (simp only: install_failed [OF nc] replay_Cons apply_event.simps replay_fetches)
next
  show "completed (install_handler resolve net) \<longleftrightarrow>
      distinct (map resolve PRECACHE_URLS) \<and>
      (\<forall>u \<in> set PRECACHE_URLS. \<exists>r. net (resolve u) = Some r \<and> addable r)"
  proof
    assume "completed (install_handler resolve net)"
    from install_completed [OF this]
    obtain rs where rs: "map net (map resolve PRECACHE_URLS) = map Some rs"
      and oks: "list_all addable rs" and d: "distinct (map resolve PRECACHE_URLS)"
      by blast
    have "\<exists>r. net (resolve u) = Some r \<and> addable r" if "u \<in> set PRECACHE_URLS" for u
      using all_accepted [OF rs oks, of "resolve u"] that by simp
    with d show "distinct (map resolve PRECACHE_URLS) \<and>
      (\<forall>u \<in> set PRECACHE_URLS. \<exists>r. net (resolve u) = Some r \<and> addable r)"
      by blast
  next
    assume a: "distinct (map resolve PRECACHE_URLS) \<and>
      (\<forall>u \<in> set PRECACHE_URLS. \<exists>r. net (resolve u) = Some r \<and> addable r)"
    then have "\<not> (\<exists>q \<in> set (map resolve PRECACHE_URLS). net q = None)"
      by auto
    then obtain rs where rs: "responses net (map resolve PRECACHE_URLS) = Some rs"
      using responses_None [of net "map resolve PRECACHE_URLS"] by auto
    then have m: "map net (map resolve PRECACHE_URLS) = map Some rs"
      by (simp add: responses_Some)
    have "list_all addable rs"
      using m a by (intro all_accepted_conv [of net "map resolve PRECACHE_URLS"]) auto
    with rs a show "completed (install_handler resolve net)"
      by (simp add: install_handler_def cache_addAll_def)
  qed
qed

theorem install_all_or_nothing_witness:
  "completed (install_handler site_url (serves fresh)) \<and>
   store_lookup (replay (steps (install_handler site_url (serves fresh))) []) CACHE_NAME
     (site_url ''./index.html'') = Some fresh \<and>
   only_shell (site_url ''./masjid.html'') = None \<and>
   \<not> completed (install_handler site_url only_shell) \<and>
   replay (steps (install_handler site_url only_shell)) [] = [(CACHE_NAME, [])] \<and>
   \<not> addable partial_content \<and>
   \<not> completed (install_handler site_url (serves partial_content))"
proof -
  have d: "distinct (map site_url PRECACHE_URLS)"
    by (simp add: PRECACHE_URLS_def site_url_def)
  have a: "\<forall>u \<in> set PRECACHE_URLS. \<exists>r. serves fresh (site_url u) = Some r \<and> addable r"
    by (simp add: serves_def addable_def ok_def storable_def fresh_def)
  have i: "''./index.html'' \<in> set PRECACHE_URLS"
    by (simp add: PRECACHE_URLS_def)
  have m: "only_shell (site_url ''./masjid.html'') = None"
    by (simp add: only_shell_def site_url_def)
  have "''./masjid.html'' \<in> set PRECACHE_URLS"
    by (simp add: PRECACHE_URLS_def)
  with m have b: "\<exists>u \<in> set PRECACHE_URLS. only_shell (site_url u) = None"
    by blast
  have p: "\<not> addable partial_content"
    by (simp add: addable_def storable_def partial_content_def)
  then have np: "\<not> (\<exists>r. serves partial_content (site_url ''./index.html'') = Some r \<and> addable r)"
    by (simp add: serves_def)
  note up = install_all_or_nothing [of site_url "serves fresh" "[]"]
  from up a d have c: "completed (install_handler site_url (serves fresh))"
    by blast
  with up i obtain r where "serves fresh (site_url ''./index.html'') = Some r"
    and "store_lookup (replay (steps (install_handler site_url (serves fresh))) []) CACHE_NAME
           (site_url ''./index.html'') = Some r"
    by blast
  then have l: "store_lookup (replay (steps (install_handler site_url (serves fresh))) [])
                  CACHE_NAME (site_url ''./index.html'') = Some fresh"
    by (simp add: serves_def)
  from install_all_or_nothing [of site_url only_shell "[]"] b
  have "\<not> completed (install_handler site_url only_shell)"
    and "replay (steps (install_handler site_url only_shell)) [] = caches_open CACHE_NAME []"
    by blast+
  moreover from install_all_or_nothing [of site_url "serves partial_content" "[]"] np i
  have "\<not> completed (install_handler site_url (serves partial_content))"
    by blast
  ultimately show ?thesis
    using c l m p by (simp add: caches_open_def caches_keys_def)
qed

text \<open>
  C6. The activate handler deletes every generation whose name is not \<open>CACHE_NAME\<close>
  and calls \<^verbatim>\<open>clients.claim\<close> last, after all deletions: what remains of the
  storage are the generations named \<open>CACHE_NAME\<close>, untouched, which is at most one
  since the names of a cache storage are distinct.
\<close>

theorem activate_one_generation:
  "replay (steps (activate_handler st)) st = filter (\<lambda>p. fst p = CACHE_NAME) st \<and>
   set (caches_keys (replay (steps (activate_handler st)) st)) \<subseteq> {CACHE_NAME} \<and>
   (distinct (caches_keys st) \<longrightarrow> length (replay (steps (activate_handler st)) st) \<le> 1) \<and>
   (\<forall>key \<in> set (caches_keys st). key \<noteq> CACHE_NAME \<longrightarrow>
      CachesDelete key \<in> set (butlast (steps (activate_handler st)))) \<and>
   last (steps (activate_handler st)) = ClientsClaim \<and>
   ClientsClaim \<notin> set (butlast (steps (activate_handler st))) \<and>
   completed (activate_handler st)"
proof (intro conjI)
  show "replay (steps (activate_handler st)) st = filter (\<lambda>p. fst p = CACHE_NAME) st"
    by (rule activate_storage)
  show "set (caches_keys (replay (steps (activate_handler st)) st)) \<subseteq> {CACHE_NAME}"
    by (auto simp: activate_storage caches_keys_def)
  show "distinct (caches_keys st) \<longrightarrow> length (replay (steps (activate_handler st)) st) \<le> 1"
    using at_most_one_of_name [of st CACHE_NAME]
    by (simp add: activate_storage caches_keys_def)
  have bl: "butlast (steps (activate_handler st))
          = CachesKeys # map CachesDelete (filter (\<lambda>key. key \<noteq> CACHE_NAME) (caches_keys st))"
    by (simp add: activate_handler_def butlast_append)
  show "\<forall>key \<in> set (caches_keys st). key \<noteq> CACHE_NAME \<longrightarrow>
      CachesDelete key \<in> set (butlast (steps (activate_handler st)))"
    by (simp add: bl)
  show "ClientsClaim \<notin> set (butlast (steps (activate_handler st)))"
    by (auto simp: bl)
  show "last (steps (activate_handler st)) = ClientsClaim"
    by (simp add: activate_handler_def)
  show "completed (activate_handler st)"
    by (simp add: activate_handler_def)
qed

theorem activate_one_generation_witness:
  "distinct (caches_keys [(old_generation, [(page_request, stale)]),
                          (CACHE_NAME, [(page_request, fresh)])]) \<and>
   replay (steps (activate_handler [(old_generation, [(page_request, stale)]),
                                    (CACHE_NAME, [(page_request, fresh)])]))
     [(old_generation, [(page_request, stale)]), (CACHE_NAME, [(page_request, fresh)])]
     = [(CACHE_NAME, [(page_request, fresh)])] \<and>
   steps (activate_handler [(old_generation, [(page_request, stale)]),
                            (CACHE_NAME, [(page_request, fresh)])])
     = [CachesKeys, CachesDelete old_generation, ClientsClaim]"
proof -
  have g: "old_generation \<noteq> CACHE_NAME"
    by (simp add: old_generation_def CACHE_NAME_def)
  then have d: "distinct (caches_keys [(old_generation, [(page_request, stale)]),
                          (CACHE_NAME, [(page_request, fresh)])])"
    by (simp add: caches_keys_def)
  have s: "steps (activate_handler [(old_generation, [(page_request, stale)]),
                            (CACHE_NAME, [(page_request, fresh)])])
     = [CachesKeys, CachesDelete old_generation, ClientsClaim]"
    using g by (simp add: activate_handler_def caches_keys_def)
  from activate_one_generation [of "[(old_generation, [(page_request, stale)]),
                          (CACHE_NAME, [(page_request, fresh)])]"] g d s
  show ?thesis by simp
qed

text \<open>
  C7, as the code has it. A request to \<^verbatim>\<open>fonts.gstatic.com\<close> is handled cache first
  whatever its path is (a path ending in \<^verbatim>\<open>.csv\<close> included): a cached copy is
  returned with no fetch and no change of the storage; without one, a response of the
  network is returned and a copy of it is put in the generation \<open>CACHE_NAME\<close>. Unless
  the cache refuses the response (status 206, or a \<^verbatim>\<open>Vary\<close> header of \<^verbatim>\<open>*\<close>), the
  copy is stored, and the same request issued after that is answered with this response
  and issues no fetch, whatever the network is then. A refused copy leaves nothing
  stored, and the same request issued after that is fetched again.
\<close>

theorem cache_first_immutable:
  assumes "hostname req = ''fonts.gstatic.com''"
  shows "fetch_handler net st req = cache_first net st req \<and>
         (\<forall>c. caches_match st req = Some c \<longrightarrow>
            outcome (fetch_handler net st req) = Resolved (Some c) \<and>
            \<not> list_ex is_fetch (awaited (fetch_handler net st req)
                                 @ detached (fetch_handler net st req)) \<and>
            final_storage st (fetch_handler net st req) = st) \<and>
         (\<forall>resp. caches_match st req = None \<and> net req = Some resp \<longrightarrow>
            outcome (fetch_handler net st req) = Resolved (Some resp) \<and>
            Fetch req \<in> set (awaited (fetch_handler net st req)) \<and>
            CachePut CACHE_NAME req resp \<in> set (detached (fetch_handler net st req)) \<and>
            (storable resp \<longrightarrow>
               store_lookup (final_storage st (fetch_handler net st req)) CACHE_NAME req
                 = Some resp \<and>
               (\<forall>net2.
                  outcome (fetch_handler net2 (final_storage st (fetch_handler net st req)) req)
                    = Resolved (Some resp) \<and>
                  \<not> list_ex is_fetch
                      (awaited
                         (fetch_handler net2 (final_storage st (fetch_handler net st req)) req)
                       @ detached
                         (fetch_handler net2 (final_storage st (fetch_handler net st req))
                            req)))) \<and>
            (\<not> storable resp \<longrightarrow>
               final_storage st (fetch_handler net st req) = caches_open CACHE_NAME st \<and>
               (\<forall>net2.
                  Fetch req \<in> set (awaited (fetch_handler net2
                                     (final_storage st (fetch_handler net st req)) req)))))"
proof -
  have tier: "fetch_handler n s req = cache_first n s req" for n s
    using assms by (rule fetch_handler_gstatic)
  have hit: "outcome (fetch_handler net st req) = Resolved (Some c) \<and>
      \<not> list_ex is_fetch (awaited (fetch_handler net st req)
                           @ detached (fetch_handler net st req)) \<and>
      final_storage st (fetch_handler net st req) = st"
    if "caches_match st req = Some c" for c
    by (simp add: tier cache_first_hit [OF that] final_storage_def)
  have miss: "outcome (fetch_handler net st req) = Resolved (Some resp) \<and>
      Fetch req \<in> set (awaited (fetch_handler net st req)) \<and>
      CachePut CACHE_NAME req resp \<in> set (detached (fetch_handler net st req)) \<and>
      (storable resp \<longrightarrow>
         store_lookup (final_storage st (fetch_handler net st req)) CACHE_NAME req
           = Some resp \<and>
         (\<forall>net2.
            outcome (fetch_handler net2 (final_storage st (fetch_handler net st req)) req)
              = Resolved (Some resp) \<and>
            \<not> list_ex is_fetch
                (awaited (fetch_handler net2 (final_storage st (fetch_handler net st req)) req)
                 @ detached
                   (fetch_handler net2 (final_storage st (fetch_handler net st req)) req)))) \<and>
      (\<not> storable resp \<longrightarrow>
         final_storage st (fetch_handler net st req) = caches_open CACHE_NAME st \<and>
         (\<forall>net2.
            Fetch req \<in> set (awaited (fetch_handler net2
                               (final_storage st (fetch_handler net st req)) req))))"
    if m: "caches_match st req = None" and up: "net req = Some resp" for resp
  proof -
    note run1 = cache_first_miss_up [where net = net, OF m up]
    define st1 where "st1 = final_storage st (fetch_handler net st req)"
    have fin: "st1 = cache_put CACHE_NAME req resp (caches_open CACHE_NAME st)"
      by (simp add: st1_def tier run1 final_storage_def)
    have first: "outcome (fetch_handler net st req) = Resolved (Some resp)"
      "Fetch req \<in> set (awaited (fetch_handler net st req))"
      "CachePut CACHE_NAME req resp \<in> set (detached (fetch_handler net st req))"
      by (simp_all add: tier run1)
    have kept: "store_lookup st1 CACHE_NAME req = Some resp \<and>
        (\<forall>net2. outcome (fetch_handler net2 st1 req) = Resolved (Some resp) \<and>
           \<not> list_ex is_fetch (awaited (fetch_handler net2 st1 req)
                                @ detached (fetch_handler net2 st1 req)))"
      if acc: "storable resp"
    proof -
      have "caches_match st1 req = Some resp"
        by (simp add: fin caches_match_put_miss [OF m acc])
      then have "fetch_handler net2 st1 req
                  = \<lparr>awaited = [CachesMatch req, MatchSettled (Some resp)],
                     outcome = Resolved (Some resp), detached = []\<rparr>" for net2
        by (simp add: tier cache_first_hit)
      then show ?thesis
        by (simp add: fin store_lookup_put [OF acc])
    qed
    have refused: "st1 = caches_open CACHE_NAME st \<and>
        (\<forall>net2. Fetch req \<in> set (awaited (fetch_handler net2 st1 req)))"
      if rej: "\<not> storable resp"
    proof -
      have eq: "st1 = caches_open CACHE_NAME st"
        by (simp add: fin cache_put_refused [OF rej])
      then have "caches_match st1 req = None"
        by (simp add: caches_match_open m)
      then have "Fetch req \<in> set (awaited (fetch_handler net2 st1 req))" for net2
        by (simp add: tier cache_first_def split: option.splits)
      with eq show ?thesis by blast
    qed
    from first kept refused show ?thesis
      unfolding st1_def by blast
  qed
  from tier hit miss show ?thesis
    by blast
qed

theorem cache_first_immutable_witness:
  "hostname font_request = ''fonts.gstatic.com'' \<and>
   endsWith (pathname font_request) ''.csv'' \<and>
   outcome (fetch_handler (serves fresh) [(CACHE_NAME, [(font_request, stale)])] font_request)
     = Resolved (Some stale) \<and>
   storable fresh \<and>
   outcome (fetch_handler (serves fresh) [] font_request) = Resolved (Some fresh) \<and>
   outcome (fetch_handler offline
              (final_storage [] (fetch_handler (serves fresh) [] font_request)) font_request)
     = Resolved (Some fresh) \<and>
   \<not> storable varying \<and>
   final_storage [] (fetch_handler (serves varying) [] font_request) = [(CACHE_NAME, [])]"
proof -
  have h: "hostname font_request = ''fonts.gstatic.com''"
    by (simp add: font_request_def)
  have p: "endsWith (pathname font_request) ''.csv''"
    by (simp add: font_request_def endsWith_def)
  have m: "caches_match [] font_request = None \<and> serves fresh font_request = Some fresh"
    "caches_match [] font_request = None \<and> serves varying font_request = Some varying"
    by (simp_all add: serves_def)
  have c: "caches_match [(CACHE_NAME, [(font_request, stale)])] font_request = Some stale"
    by simp
  have s: "storable fresh" "\<not> storable varying"
    by (simp_all add: storable_def fresh_def varying_def)
  have o: "caches_open CACHE_NAME [] = [(CACHE_NAME, [])]"
    by (simp add: caches_open_def caches_keys_def)
  from cache_first_immutable [OF h, of "serves fresh" "[]"]
       cache_first_immutable [OF h, of "serves fresh" "[(CACHE_NAME, [(font_request, stale)])]"]
       cache_first_immutable [OF h, of "serves varying" "[]"]
       m c h p s o
  show ?thesis by metis
qed

text \<open>
  C7 as stated (every fetched response is stored, so that the next request is served from
  the store) fails for a response the cache refuses: a response of status 206 is returned
  to the page, nothing is stored for the request, and the same request issued again is
  fetched again.
\<close>

theorem cache_first_counterexample:
  "hostname font_request = ''fonts.gstatic.com'' \<and>
   status partial_content = 206 \<and>
   outcome (fetch_handler (serves partial_content) [] font_request)
     = Resolved (Some partial_content) \<and>
   caches_match (final_storage [] (fetch_handler (serves partial_content) [] font_request))
     font_request = None \<and>
   list_ex is_fetch
     (awaited (fetch_handler (serves partial_content)
                 (final_storage [] (fetch_handler (serves partial_content) [] font_request))
                 font_request))"
  by (simp add: fetch_handler_def font_request_def endsWith_def cache_first_def serves_def
        partial_content_def Let_def final_storage_def caches_open_def caches_keys_def
        cache_put_def storable_def)

text \<open>
  C8, as the code has it. In both stale-while-revalidate strategies a request found in a
  cache is answered with the cached response while the fetch, already issued, has not
  settled: the settlement of the fetch is the first thing that happens after the answer.
  When the fetch then resolves, a copy of its response is put for the request in the
  generation \<open>CACHE_NAME\<close>. Unless the cache refuses the response (status 206, or a
  \<^verbatim>\<open>Vary\<close> header of \<^verbatim>\<open>*\<close>), the copy is stored, and where \<open>CACHE_NAME\<close> is the only
  generation the next lookup finds the new response. A refused copy changes no entry.
\<close>

theorem stale_while_revalidate:
  assumes "revalidates req" and "caches_match st req = Some c"
  shows "outcome (fetch_handler net st req) = Resolved (Some c) \<and>
         Fetch req \<in> set (awaited (fetch_handler net st req)) \<and>
         \<not> list_ex is_fetch_settled (awaited (fetch_handler net st req)) \<and>
         hd (detached (fetch_handler net st req)) = FetchSettled (net req) \<and>
         (\<forall>resp. net req = Some resp \<longrightarrow>
            CachePut CACHE_NAME req resp \<in> set (detached (fetch_handler net st req)) \<and>
            (storable resp \<longrightarrow>
               store_lookup (final_storage st (fetch_handler net st req)) CACHE_NAME req
                 = Some resp \<and>
               (caches_keys st = [CACHE_NAME] \<longrightarrow>
                  caches_match (final_storage st (fetch_handler net st req)) req = Some resp)) \<and>
            (\<not> storable resp \<longrightarrow>
               final_storage st (fetch_handler net st req) = caches_open CACHE_NAME st \<and>
               caches_match (final_storage st (fetch_handler net st req)) req = Some c))"
proof -
  note run1 = swr_hit [OF assms, of net]
  have front: "outcome (fetch_handler net st req) = Resolved (Some c)"
    "Fetch req \<in> set (awaited (fetch_handler net st req))"
    "\<not> list_ex is_fetch_settled (awaited (fetch_handler net st req))"
    "hd (detached (fetch_handler net st req)) = FetchSettled (net req)"
    by (simp_all add: run1 split: option.splits)
  have later: "CachePut CACHE_NAME req resp \<in> set (detached (fetch_handler net st req)) \<and>
      (storable resp \<longrightarrow>
         store_lookup (final_storage st (fetch_handler net st req)) CACHE_NAME req
           = Some resp \<and>
         (caches_keys st = [CACHE_NAME] \<longrightarrow>
            caches_match (final_storage st (fetch_handler net st req)) req = Some resp)) \<and>
      (\<not> storable resp \<longrightarrow>
         final_storage st (fetch_handler net st req) = caches_open CACHE_NAME st \<and>
         caches_match (final_storage st (fetch_handler net st req)) req = Some c)"
    if up: "net req = Some resp" for resp
  proof -
    have fin: "final_storage st (fetch_handler net st req)
                 = cache_put CACHE_NAME req resp (caches_open CACHE_NAME st)"
      by (simp add: run1 up final_storage_revalidated)
    have put: "CachePut CACHE_NAME req resp \<in> set (detached (fetch_handler net st req))"
      by (simp add: run1 up)
    have kept: "store_lookup (final_storage st (fetch_handler net st req)) CACHE_NAME req
           = Some resp \<and>
         (caches_keys st = [CACHE_NAME] \<longrightarrow>
            caches_match (final_storage st (fetch_handler net st req)) req = Some resp)"
      if "storable resp"
      using that by (simp add: fin store_lookup_put caches_match_put_single)
    have refused: "final_storage st (fetch_handler net st req) = caches_open CACHE_NAME st \<and>
         caches_match (final_storage st (fetch_handler net st req)) req = Some c"
      if "\<not> storable resp"
      using that assms(2) by (simp add: fin cache_put_refused caches_match_open)
    from put kept refused show ?thesis by blast
  qed
  from front later show ?thesis by blast
qed

theorem stale_while_revalidate_witness:
  "revalidates css_request \<and>
   caches_match [(CACHE_NAME, [(css_request, stale)])] css_request = Some stale \<and>
   storable fresh \<and>
   outcome (fetch_handler (serves fresh) [(CACHE_NAME, [(css_request, stale)])] css_request)
     = Resolved (Some stale) \<and>
   caches_match
     (final_storage [(CACHE_NAME, [(css_request, stale)])]
        (fetch_handler (serves fresh) [(CACHE_NAME, [(css_request, stale)])] css_request))
     css_request = Some fresh \<and>
   \<not> storable varying \<and>
   caches_match
     (final_storage [(CACHE_NAME, [(css_request, stale)])]
        (fetch_handler (serves varying) [(CACHE_NAME, [(css_request, stale)])] css_request))
     css_request = Some stale"
proof -
  have h: "revalidates css_request"
    by (simp add: revalidates_def classify_def css_request_def endsWith_def)
  have m: "caches_match [(CACHE_NAME, [(css_request, stale)])] css_request = Some stale"
    by simp
  have k: "caches_keys [(CACHE_NAME, [(css_request, stale)])] = [CACHE_NAME]"
    by (simp add: caches_keys_def)
  have n: "serves fresh css_request = Some fresh" "serves varying css_request = Some varying"
    by (simp_all add: serves_def)
  have s: "storable fresh" "\<not> storable varying"
    by (simp_all add: storable_def fresh_def varying_def)
  from stale_while_revalidate [OF h m, of "serves fresh"]
       stale_while_revalidate [OF h m, of "serves varying"] h m k n s
  show ?thesis by blast
qed

text \<open>
  C8 as stated (after the fetch settles successfully the store holds the new response)
  fails for a response the cache refuses: after a revalidation that resolves with a
  response of status 206, the store still holds the old entry.
\<close>

theorem stale_while_revalidate_counterexample:
  "revalidates page_request \<and>
   caches_match [(CACHE_NAME, [(page_request, stale)])] page_request = Some stale \<and>
   serves partial_content page_request = Some partial_content \<and>
   status partial_content = 206 \<and>
   outcome (fetch_handler (serves partial_content) [(CACHE_NAME, [(page_request, stale)])]
              page_request) = Resolved (Some stale) \<and>
   store_lookup
     (final_storage [(CACHE_NAME, [(page_request, stale)])]
        (fetch_handler (serves partial_content) [(CACHE_NAME, [(page_request, stale)])]
           page_request))
     CACHE_NAME page_request = Some stale \<and>
   stale \<noteq> partial_content"
  by (simp add: revalidates_def classify_def fetch_handler_def page_request_def endsWith_def
        startsWith_def swr_default_def serves_def partial_content_def stale_def Let_def
        final_storage_def caches_open_def caches_keys_def cache_put_def storable_def
        store_lookup_def)

text \<open>
  C9, as the code has it. In every strategy that fetches, a copy of a response the fetch
  resolves with is put for the request in the generation \<open>CACHE_NAME\<close>, and nothing in
  the handler looks at the status. The cache stores the copy unless it refuses the
  response (status 206, or a \<^verbatim>\<open>Vary\<close> header of \<^verbatim>\<open>*\<close>), so an error response such as
  404 or 500 is stored like a successful one; a refused copy leaves nothing stored. In
  the cache-first strategy a response stored this way, an error response included, is
  the answer to every later request for the same URL, whatever the network is then.
\<close>

theorem every_response_stored:
  "(classify req = NetworkFirst \<or> revalidates req \<or>
    classify req = CacheFirst \<and> caches_match st req = None \<longrightarrow>
      Fetch req \<in> set (awaited (fetch_handler net st req)))
   \<and>
   (\<forall>resp. Fetch req \<in> set (awaited (fetch_handler net st req)) \<and> net req = Some resp \<longrightarrow>
      FetchSettled (Some resp) \<in> set (awaited (fetch_handler net st req)
                                        @ detached (fetch_handler net st req)) \<and>
      CachePut CACHE_NAME req resp \<in> set (awaited (fetch_handler net st req)
                                           @ detached (fetch_handler net st req)) \<and>
      (storable resp \<longrightarrow>
         store_lookup (final_storage st (fetch_handler net st req)) CACHE_NAME req
           = Some resp) \<and>
      (\<not> storable resp \<longrightarrow>
         final_storage st (fetch_handler net st req) = caches_open CACHE_NAME st))
   \<and>
   (\<forall>resp nets. classify req = CacheFirst \<and> caches_match st req = None \<and>
                net req = Some resp \<and> storable resp \<longrightarrow>
      (\<forall>x \<in> set (serve_seq nets (final_storage st (fetch_handler net st req)) req).
         x = Resolved (Some resp)))"
proof (intro conjI allI impI)
  assume "classify req = NetworkFirst \<or> revalidates req \<or>
          classify req = CacheFirst \<and> caches_match st req = None"
  then show "Fetch req \<in> set (awaited (fetch_handler net st req))"
    by (rule fetched_in_tier)
next
  fix resp
  assume a: "Fetch req \<in> set (awaited (fetch_handler net st req)) \<and> net req = Some resp"
  then show settled: "FetchSettled (Some resp) \<in> set (awaited (fetch_handler net st req)
                                        @ detached (fetch_handler net st req))"
    using settled_when_fetched [of req net st] by simp
  note put = put_when_settled [OF settled]
  from put
  show "CachePut CACHE_NAME req resp \<in> set (awaited (fetch_handler net st req)
                                           @ detached (fetch_handler net st req))"
    by simp
  {
    assume "storable resp"
    with put
    show "store_lookup (final_storage st (fetch_handler net st req)) CACHE_NAME req = Some resp"
      by (simp add: store_lookup_put)
  }
  {
    assume "\<not> storable resp"
    with put
    show "final_storage st (fetch_handler net st req) = caches_open CACHE_NAME st"
      by (simp add: cache_put_refused)
  }
next
  fix resp nets
  assume a: "classify req = CacheFirst \<and> caches_match st req = None \<and> net req = Some resp \<and>
             storable resp"
  then have tier: "classify req = CacheFirst" and miss: "caches_match st req = None"
    and up: "net req = Some resp" and acc: "storable resp"
    by simp_all
  have "final_storage st (fetch_handler net st req)
          = cache_put CACHE_NAME req resp (caches_open CACHE_NAME st)"
    by (simp add: fetch_handler_cache_first [OF tier]
          cache_first_miss_up [where net = net, OF miss up] final_storage_def)
  then have "caches_match (final_storage st (fetch_handler net st req)) req = Some resp"
    by (simp add: caches_match_put_miss [OF miss acc])
  from serve_seq_cached [OF tier this, of nets]
  show "\<forall>x \<in> set (serve_seq nets (final_storage st (fetch_handler net st req)) req).
          x = Resolved (Some resp)"
    by blast
qed

theorem every_response_stored_witness:
  "status not_found = 404 \<and> storable not_found \<and>
   classify font_request = CacheFirst \<and>
   store_lookup (final_storage [] (fetch_handler (serves not_found) [] font_request))
     CACHE_NAME font_request = Some not_found \<and>
   serve_seq [serves fresh, offline, serves fresh]
     (final_storage [] (fetch_handler (serves not_found) [] font_request)) font_request
     = [Resolved (Some not_found), Resolved (Some not_found), Resolved (Some not_found)] \<and>
   classify latest_request = NetworkFirst \<and>
   store_lookup (final_storage [] (fetch_handler (serves not_found) [] latest_request))
     CACHE_NAME latest_request = Some not_found \<and>
   \<not> storable varying \<and>
   final_storage [] (fetch_handler (serves varying) [] latest_request) = [(CACHE_NAME, [])]"
proof -
  have f: "classify font_request = CacheFirst"
    by (simp add: classify_def font_request_def endsWith_def)
  have l: "classify latest_request = NetworkFirst"
    by (simp add: classify_def latest_request_def endsWith_def startsWith_def)
  have n: "serves not_found font_request = Some not_found"
     "serves not_found latest_request = Some not_found"
     "serves varying latest_request = Some varying"
    by (simp_all add: serves_def)
  have s: "status not_found = 404" "storable not_found" "\<not> storable varying"
    by (simp_all add: not_found_def storable_def varying_def)
  have m: "caches_match [] font_request = None"
    by simp
  have o: "caches_open CACHE_NAME [] = [(CACHE_NAME, [])]"
    by (simp add: caches_open_def caches_keys_def)
  from every_response_stored [where req = font_request and net = "serves not_found"
                                and st = "[]"]
       every_response_stored [where req = latest_request and net = "serves not_found"
                                and st = "[]"]
       every_response_stored [where req = latest_request and net = "serves varying"
                                and st = "[]"]
       f l n m s o
  have "store_lookup (final_storage [] (fetch_handler (serves not_found) [] font_request))
          CACHE_NAME font_request = Some not_found"
    and "store_lookup (final_storage [] (fetch_handler (serves not_found) [] latest_request))
          CACHE_NAME latest_request = Some not_found"
    and "\<forall>x \<in> set (serve_seq [serves fresh, offline, serves fresh]
           (final_storage [] (fetch_handler (serves not_found) [] font_request)) font_request).
          x = Resolved (Some not_found)"
    and "final_storage [] (fetch_handler (serves varying) [] latest_request)
           = [(CACHE_NAME, [])]"
    by metis+
  with f l s show ?thesis
    by (simp add: Let_def)
qed

text \<open>
  C9 as stated (any response whose fetch promise resolves is stored, whatever its status)
  fails for the status 206: the fetch resolves, the response is the answer, and nothing
  is stored for the request.
\<close>

theorem every_response_counterexample:
  "classify css_request = RevalidateCss \<and>
   serves partial_content css_request = Some partial_content \<and>
   status partial_content = 206 \<and>
   FetchSettled (Some partial_content)
     \<in> set (awaited (fetch_handler (serves partial_content) [] css_request)) \<and>
   outcome (fetch_handler (serves partial_content) [] css_request)
     = Resolved (Some partial_content) \<and>
   store_lookup (final_storage [] (fetch_handler (serves partial_content) [] css_request))
     CACHE_NAME css_request = None \<and>
   caches_match (final_storage [] (fetch_handler (serves partial_content) [] css_request))
     css_request = None"
  by (simp add: classify_def fetch_handler_def css_request_def endsWith_def
        swr_css_def serves_def partial_content_def Let_def
        final_storage_def caches_open_def caches_keys_def cache_put_def storable_def
        store_lookup_def)

text \<open>
  C10. Whatever the fetch handler writes, it writes to the generation \<open>CACHE_NAME\<close>;
  every lookup it makes is \<^verbatim>\<open>caches.match\<close>, which is answered by the first
  generation, in the order of the storage, that holds an entry for the request. So a
  generation of another name that comes first and holds an entry answers the lookup,
  whatever the generation \<open>CACHE_NAME\<close> holds.
\<close>

theorem writes_current_reads_all:
  "(\<forall>e \<in> set (awaited (fetch_handler net st req) @ detached (fetch_handler net st req)).
      is_write e \<longrightarrow> write_target e = Some CACHE_NAME)
   \<and>
   (\<forall>x. MatchSettled x \<in> set (awaited (fetch_handler net st req)
                                @ detached (fetch_handler net st req)) \<longrightarrow>
      x = caches_match st req)
   \<and>
   (\<forall>r. caches_match st req = Some r \<longleftrightarrow>
      (\<exists>older name c newer. st = older @ (name, c) # newer \<and>
         caches_match older req = None \<and> map_of c req = Some r))
   \<and>
   (\<forall>name c newer old.
      (classify req = CacheFirst \<or> revalidates req) \<and>
      st = (name, c) # newer \<and> name \<noteq> CACHE_NAME \<and> map_of c req = Some old \<longrightarrow>
      outcome (fetch_handler net st req) = Resolved (Some old))"
proof (intro conjI allI impI ballI)
  fix e
  assume "e \<in> set (awaited (fetch_handler net st req) @ detached (fetch_handler net st req))"
    and "is_write e"
  then show "write_target e = Some CACHE_NAME"
    by (rule writes_to_current)
next
  fix x
  assume "MatchSettled x \<in> set (awaited (fetch_handler net st req)
                                 @ detached (fetch_handler net st req))"
  then show "x = caches_match st req"
    by (rule lookups_search_all)
next
  fix r
  show "caches_match st req = Some r \<longleftrightarrow>
      (\<exists>older name c newer. st = older @ (name, c) # newer \<and>
         caches_match older req = None \<and> map_of c req = Some r)"
    by (rule caches_match_generation)
next
  fix name c newer old
  assume a: "(classify req = CacheFirst \<or> revalidates req) \<and>
      st = (name, c) # newer \<and> name \<noteq> CACHE_NAME \<and> map_of c req = Some old"
  then have hit: "caches_match st req = Some old"
    by simp
  from a consider "classify req = CacheFirst" | "revalidates req"
    by blast
  then show "outcome (fetch_handler net st req) = Resolved (Some old)"
  proof cases
    case 1
    then show ?thesis
      by (simp add: fetch_handler_cache_first cache_first_hit [OF hit])
  next
    case 2
    then show ?thesis
      by (simp add: swr_hit [OF 2 hit])
  qed
qed

theorem writes_current_reads_all_witness:
  "old_generation \<noteq> CACHE_NAME \<and>
   classify font_request = CacheFirst \<and>
   outcome (fetch_handler (serves fresh)
              [(old_generation, [(font_request, stale)]), (CACHE_NAME, [(font_request, fresh)])]
              font_request) = Resolved (Some stale) \<and>
   map write_target
     (filter is_write
        (awaited (fetch_handler (serves fresh) [(old_generation, [])] page_request)
         @ detached (fetch_handler (serves fresh) [(old_generation, [])] page_request)))
     = [Some CACHE_NAME, Some CACHE_NAME]"
proof -
  have g: "old_generation \<noteq> CACHE_NAME"
    by (simp add: old_generation_def CACHE_NAME_def)
  have f: "classify font_request = CacheFirst"
    by (simp add: classify_def font_request_def endsWith_def)
  have p: "classify page_request = RevalidateDefault"
    by (simp add: classify_def page_request_def endsWith_def startsWith_def)
  have w: "map write_target
     (filter is_write
        (awaited (fetch_handler (serves fresh) [(old_generation, [])] page_request)
         @ detached (fetch_handler (serves fresh) [(old_generation, [])] page_request)))
     = [Some CACHE_NAME, Some CACHE_NAME]"
    by (simp add: fetch_handler_default [OF p] swr_default_def serves_def)
  from writes_current_reads_all
         [of "serves fresh"
             "[(old_generation, [(font_request, stale)]), (CACHE_NAME, [(font_request, fresh)])]"
             font_request]
       g f w
  show ?thesis by simp
qed

end
